theory Spec2Isabelle
  imports Complex_Main "HOL-Library.AList"
begin

section \<open>Game constants\<close>

text \<open>
  The module-level constants of \<^verbatim>\<open>QuantumBlackJack-withGUI.ipynb\<close>. Card values and scores
  are Python integers, modelled as \<^typ>\<open>int\<close>.
\<close>

definition TARGET_SCORE :: int where
  "TARGET_SCORE = 17"

definition DEALER_STANDS_THRESHOLD :: int where
  "DEALER_STANDS_THRESHOLD = 14"

definition MIN_CARD_VALUE :: int where
  "MIN_CARD_VALUE = 1"

definition MAX_CARD_VALUE :: int where
  "MAX_CARD_VALUE = 8"

definition NUM_QUANTUM_CARDS_PER_PLAYER :: nat where
  "NUM_QUANTUM_CARDS_PER_PLAYER = 2"

section \<open>Exceptions as values\<close>

text \<open>
  A coroutine of the class either runs to its end (\<open>Inr\<close> the new state of the object) or
  raises (\<open>Inl\<close> the exception). \<open>IndexError\<close> is a list index out of range, \<open>KeyError\<close>
  a missing dictionary key, \<open>ValueError\<close> is \<^verbatim>\<open>int('', 2)\<close>, and \<open>AttributeError\<close> is a
  method call on \<^verbatim>\<open>self.qc\<close> while it is still \<^verbatim>\<open>None\<close>.
\<close>

datatype error = IndexError | KeyError | ValueError | AttributeError

definition bind_result :: "error + 'a \<Rightarrow> ('a \<Rightarrow> error + 'b) \<Rightarrow> error + 'b" where
  "bind_result r f = (case r of Inl e \<Rightarrow> Inl e | Inr x \<Rightarrow> f x)"

section \<open>The circuit as the list of instructions appended to it\<close>

text \<open>
  \<^verbatim>\<open>_prepare_quantum_circuit\<close> declares three quantum registers of
  \<open>NUM_QUANTUM_CARDS_PER_PLAYER * 3\<close> qubits and three classical registers of the same
  size. Every call \<^verbatim>\<open>self.qc.h(..)\<close>, \<^verbatim>\<open>self.qc.ry(..)\<close>, \<^verbatim>\<open>self.qc.cx(..)\<close>,
  \<^verbatim>\<open>self.qc.barrier()\<close> and \<^verbatim>\<open>self.qc.measure(..)\<close> appends instructions to the circuit; a call
  on a list of qubits appends one instruction per qubit, in the order of the list.
\<close>

datatype qregister = dealer_q | player1_q | player2_q

datatype cregister = dealer_c | player1_c | player2_c

type_synonym qubit = "qregister \<times> nat"

type_synonym clbit = "cregister \<times> nat"

datatype gate =
  H_gate qubit
  | RY_gate real qubit
  | CX_gate qubit qubit
  | Barrier
  | Measure_gate qubit clbit

text \<open>The Python slice \<^verbatim>\<open>reg[lo:hi]\<close> of a register.\<close>

definition qslice :: "qregister \<Rightarrow> nat \<Rightarrow> nat \<Rightarrow> qubit list" where
  "qslice reg lo hi = map (Pair reg) [lo..<hi]"

definition cslice :: "cregister \<Rightarrow> nat \<Rightarrow> nat \<Rightarrow> clbit list" where
  "cslice reg lo hi = map (Pair reg) [lo..<hi]"

definition num_qubits :: nat where
  "num_qubits = NUM_QUANTUM_CARDS_PER_PLAYER * 3"

section \<open>The session object\<close>

text \<open>
  The fields of \<^verbatim>\<open>QuantumCardGameGUI\<close> that the game logic reads or writes. The three
  dictionaries are association lists in insertion order, because
  \<^verbatim>\<open>_process_quantum_results\<close> and \<^verbatim>\<open>_generate_final_summary\<close> iterate over them. Of the
  widgets only the position of the action box (the three buttons and the card selector) is
  kept: \<open>action_box\<close> is the player whose panel shows it, \<open>None\<close> when no panel does.
  Message labels and card images are presentation and are left out.
\<close>

record game =
  qc :: "gate list option"
  player_scores :: "(string \<times> int) list"
  initial_cards :: "(string \<times> int) list"
  player_hands :: "(string \<times> int list) list"
  player_turn_order :: "nat list"
  current_player_index :: nat
  game_over :: bool
  current_round :: int
  measure_level :: int
  action_box :: "nat option"

text \<open>The state that \<^verbatim>\<open>__init__\<close> builds.\<close>

definition init_game :: game where
  "init_game =
     \<lparr>qc = None, player_scores = [], initial_cards = [], player_hands = [],
      player_turn_order = [], current_player_index = 0, game_over = False,
      current_round = 1, measure_level = 3, action_box = None\<rparr>"

section \<open>Randomness and the simulator's answer as inputs\<close>

text \<open>
  Every source of randomness is an explicit input of the event it is consumed in:
  \<^item> \<open>rng k\<close> is the raw value behind the \<open>k\<close>-th call of \<^verbatim>\<open>np.random.randint\<close> in the
    event; \<^verbatim>\<open>randint(low, high)\<close> returns \<open>low\<close> plus a value below \<open>high - low\<close>;
  \<^item> \<open>angles k\<close> is the result of the \<open>k\<close>-th call of \<^verbatim>\<open>np.random.uniform(0, 2 * np.pi)\<close>;
  \<^item> \<open>coin\<close> is the bit measured by the coin circuit (\<open>True\<close> for the memory \<^verbatim>\<open>'1'\<close>);
  \<^item> \<open>memory\<close> is the one-shot memory string of the game circuit, already split at the
    spaces into \<^verbatim>\<open>p2_res, p1_res, dealer_res\<close>. A register's string is a string over
    \<^verbatim>\<open>'0'\<close> and \<^verbatim>\<open>'1'\<close>; it is modelled as the list of its characters, \<open>True\<close> for \<^verbatim>\<open>'1'\<close>.
\<close>

record memory =
  p2_res :: "bool list"
  p1_res :: "bool list"
  dealer_res :: "bool list"

record env =
  rng :: "nat \<Rightarrow> nat"
  angles :: "nat \<Rightarrow> real"
  coin :: bool
  mem :: memory

section \<open>Card values\<close>

definition generate_random_card :: "nat \<Rightarrow> int" where
  "generate_random_card r =
     MIN_CARD_VALUE + int (r mod nat (MAX_CARD_VALUE + 1 - MIN_CARD_VALUE))"

text \<open>
  \<^verbatim>\<open>int(binary_string, 2)\<close> on a string of binary digits: the first character is the most
  significant digit, and the empty string raises \<open>ValueError\<close>.
\<close>

definition int_base2 :: "bool list \<Rightarrow> int" where
  "int_base2 bs = foldl (\<lambda>acc b. 2 * acc + (if b then 1 else 0)) 0 bs"

definition get_card_value_from_binary :: "bool list \<Rightarrow> error + int" where
  "get_card_value_from_binary binary_string =
     (if binary_string = [] then Inl ValueError else Inr (int_base2 binary_string + 1))"

text \<open>\<^verbatim>\<open>self._get_card_value_from_binary(res[lo:hi][::-1])\<close>\<close>

definition quantum_card :: "bool list \<Rightarrow> nat \<Rightarrow> nat \<Rightarrow> error + int" where
  "quantum_card res lo hi = get_card_value_from_binary (rev (take (hi - lo) (drop lo res)))"

text \<open>
  The card value of a sampled group of bits in the words of the specification: the bit
  string is reversed before it is read as a binary integer, so the first bit of the group
  counts 1, the second 2 and the third 4; then 1 is added.
\<close>

definition slot_value :: "bool list \<Rightarrow> int" where
  "slot_value bs = (\<Sum>i<length bs. (if bs ! i then 2 ^ i else 0)) + 1"

section \<open>Preparing the circuit\<close>

text \<open>
  \<^verbatim>\<open>_prepare_player_card_with_rotations\<close>: a Hadamard gate on every qubit of the card, then
  one rotation about the Y axis per qubit, each with an angle of its own. \<open>ang\<close> gives
  the angle drawn for the \<open>i\<close>-th qubit of the list. (The probabilities the method
  returns are only displayed.)
\<close>

definition prepare_player_card_with_rotations :: "(nat \<Rightarrow> real) \<Rightarrow> qubit list \<Rightarrow> gate list" where
  "prepare_player_card_with_rotations ang qubits =
     map H_gate qubits @ map (\<lambda>i. RY_gate (ang i) (qubits ! i)) [0..<length qubits]"

definition prepare_quantum_circuit :: "(nat \<Rightarrow> real) \<Rightarrow> gate list" where
  "prepare_quantum_circuit ang =
     [Barrier]
     @ map H_gate (qslice dealer_q 0 num_qubits) @ [Barrier]
     @ prepare_player_card_with_rotations ang (qslice player1_q 3 6) @ [Barrier]
     @ prepare_player_card_with_rotations (\<lambda>i. ang (3 + i)) (qslice player1_q 0 3) @ [Barrier]
     @ [CX_gate (player1_q, 3) (player2_q, 5),
        CX_gate (player1_q, 4) (player2_q, 4),
        CX_gate (player1_q, 5) (player2_q, 3), Barrier]
     @ [CX_gate (player1_q, 0) (player2_q, 2),
        CX_gate (player1_q, 1) (player2_q, 1),
        CX_gate (player1_q, 2) (player2_q, 0), Barrier]"

section \<open>Turn order and the action box\<close>

definition determine_turn_order :: "bool \<Rightarrow> nat list" where
  "determine_turn_order c = (if \<not> c then [1, 2] else [2, 1])"

text \<open>
  \<^verbatim>\<open>_update_turn_highlight\<close> first takes the action box out of both player panels, returns
  at once when the game is over, and otherwise puts the box into the panel of the player
  whose turn it is.
\<close>

definition update_turn_highlight :: "game \<Rightarrow> error + game" where
  "update_turn_highlight g =
     (let g1 = g\<lparr>action_box := None\<rparr> in
      if game_over g1 then Inr g1
      else if current_player_index g1 < length (player_turn_order g1) then
        (let player_num = player_turn_order g1 ! current_player_index g1 in
         Inr (g1\<lparr>action_box := Some (if player_num = 1 then 1 else 2)\<rparr>))
      else Inl IndexError)"

section \<open>Measurement and the hands\<close>

definition measure_all :: "qubit list \<Rightarrow> clbit list \<Rightarrow> gate list" where
  "measure_all qs cs = map (\<lambda>(q, c). Measure_gate q c) (zip qs cs)"

definition add_measurements_to_circuit :: "game \<Rightarrow> error + game" where
  "add_measurements_to_circuit g =
     (case qc g of
        None \<Rightarrow> Inl AttributeError
      | Some c \<Rightarrow>
          if measure_level g = 2 then
            Inr (g\<lparr>qc := Some (c
              @ measure_all (qslice dealer_q 3 6) (cslice dealer_c 3 6)
              @ measure_all (qslice player1_q 3 6) (cslice player1_c 3 6)
              @ measure_all (qslice player2_q 3 6) (cslice player2_c 3 6))\<rparr>)
          else
            Inr (g\<lparr>qc := Some (c
              @ measure_all (qslice dealer_q 0 num_qubits) (cslice dealer_c 0 num_qubits)
              @ measure_all (qslice player1_q 0 num_qubits) (cslice player1_c 0 num_qubits)
              @ measure_all (qslice player2_q 0 num_qubits) (cslice player2_c 0 num_qubits))\<rparr>))"

text \<open>\<^verbatim>\<open>hands[p].append(v)\<close> on a dictionary of lists.\<close>

definition append_card :: "string \<Rightarrow> int \<Rightarrow> (string \<times> int list) list \<Rightarrow> error + (string \<times> int list) list" where
  "append_card p v hands =
     (case map_of hands p of
        None \<Rightarrow> Inl KeyError
      | Some h \<Rightarrow> Inr (AList.update p (h @ [v]) hands))"

text \<open>
  The quantum part of \<^verbatim>\<open>_process_quantum_results\<close> at measure level 3: the second quantum
  card of both players, and the Dealer's only while the Dealer's two cards so far sum to
  less than the threshold.
\<close>

definition second_quantum_cards :: "memory \<Rightarrow> (string \<times> int list) list \<Rightarrow> error + (string \<times> int list) list" where
  "second_quantum_cards m hands =
     bind_result (quantum_card (p1_res m) 3 6) (\<lambda>p1_q2.
     bind_result (append_card ''Player 1'' p1_q2 hands) (\<lambda>hands1.
     bind_result (quantum_card (p2_res m) 3 6) (\<lambda>p2_q2.
     bind_result (append_card ''Player 2'' p2_q2 hands1) (\<lambda>hands2.
     case map_of hands2 ''Dealer'' of
       None \<Rightarrow> Inl KeyError
     | Some dealer_hand \<Rightarrow>
         (let dealer_score_before_q2 = sum_list dealer_hand in
          if dealer_score_before_q2 < DEALER_STANDS_THRESHOLD then
            bind_result (quantum_card (dealer_res m) 3 6) (\<lambda>d_q2.
              append_card ''Dealer'' d_q2 hands2)
          else Inr hands2)))))"

definition first_quantum_cards :: "memory \<Rightarrow> (string \<times> int list) list \<Rightarrow> error + (string \<times> int list) list" where
  "first_quantum_cards m hands =
     bind_result (quantum_card (p1_res m) 0 3) (\<lambda>p1_q1.
     bind_result (append_card ''Player 1'' p1_q1 hands) (\<lambda>hands1.
     bind_result (quantum_card (p2_res m) 0 3) (\<lambda>p2_q1.
     bind_result (append_card ''Player 2'' p2_q1 hands1) (\<lambda>hands2.
     bind_result (quantum_card (dealer_res m) 0 3) (\<lambda>d_q1.
       append_card ''Dealer'' d_q1 hands2)))))"

text \<open>\<^verbatim>\<open>for p in self.player_hands: self.player_scores[p] = sum(self.player_hands[p])\<close>\<close>

definition score_hands :: "(string \<times> int list) list \<Rightarrow> (string \<times> int) list \<Rightarrow> (string \<times> int) list" where
  "score_hands hands scores = fold (\<lambda>(p, h). AList.update p (sum_list h)) hands scores"

definition process_quantum_results :: "memory \<Rightarrow> game \<Rightarrow> error + game" where
  "process_quantum_results m g =
     (case (map_of (initial_cards g) ''Player 1'',
            map_of (initial_cards g) ''Player 2'',
            map_of (initial_cards g) ''Dealer'') of
        (Some c1, Some c2, Some cd) \<Rightarrow>
          bind_result
            (first_quantum_cards m [(''Player 1'', [c1]), (''Player 2'', [c2]), (''Dealer'', [cd])])
            (\<lambda>hands1.
          bind_result
            (if measure_level g = 3 then second_quantum_cards m hands1 else Inr hands1)
            (\<lambda>hands.
          Inr (g\<lparr>player_hands := hands,
                 player_scores := score_hands hands (player_scores g)\<rparr>)))
      | _ \<Rightarrow> Inl KeyError)"

section \<open>The Dealer's final turn\<close>

text \<open>
  The \<^verbatim>\<open>while\<close> loop of \<^verbatim>\<open>_dealer_final_turn\<close>; \<open>k\<close> counts the cards drawn so far in this
  event. Every card is at least \<open>MIN_CARD_VALUE\<close>, which is what the termination proof
  uses.
\<close>

function dealer_final_turn_loop :: "(nat \<Rightarrow> nat) \<Rightarrow> nat \<Rightarrow> int \<Rightarrow> game \<Rightarrow> error + game" where
  "dealer_final_turn_loop r k dealer_total g =
     (if dealer_total < DEALER_STANDS_THRESHOLD then
        (case append_card ''Dealer'' (generate_random_card (r k)) (player_hands g) of
           Inl e \<Rightarrow> Inl e
         | Inr hands \<Rightarrow>
             dealer_final_turn_loop r (k + 1) (dealer_total + generate_random_card (r k))
               (g\<lparr>player_hands := hands,
                  player_scores :=
                    AList.update ''Dealer'' (dealer_total + generate_random_card (r k))
                      (player_scores g)\<rparr>))
      else Inr g)"
  by pat_completeness auto
termination
  by (relation "measure (\<lambda>(r, k, dealer_total, g). nat (DEALER_STANDS_THRESHOLD - dealer_total))")
     (auto simp: generate_random_card_def MIN_CARD_VALUE_def)

declare dealer_final_turn_loop.simps [simp del]

definition dealer_final_turn :: "(nat \<Rightarrow> nat) \<Rightarrow> game \<Rightarrow> error + game" where
  "dealer_final_turn r g =
     (case map_of (player_scores g) ''Dealer'' of
        None \<Rightarrow> Inl KeyError
      | Some dealer_total \<Rightarrow> dealer_final_turn_loop r 0 dealer_total g)"

section \<open>The final summary\<close>

text \<open>Python's \<^verbatim>\<open>str\<close> of an integer, for the f-strings of the summary.\<close>

function str_nat :: "nat \<Rightarrow> string" where
  "str_nat n =
     (if n < 10 then [''0123456789'' ! n]
      else str_nat (n div 10) @ [''0123456789'' ! (n mod 10)])"
  by pat_completeness auto
termination
  by (relation "measure (\<lambda>n. n)") auto

declare str_nat.simps [simp del]

definition str_int :: "int \<Rightarrow> string" where
  "str_int i = (if i < 0 then ''-'' @ str_nat (nat (- i)) else str_nat (nat i))"

text \<open>\<^verbatim>\<open>sep.join(xs)\<close>\<close>

fun join :: "string \<Rightarrow> string list \<Rightarrow> string" where
  "join sep [] = []"
| "join sep [x] = x"
| "join sep (x # y # ys) = x @ sep @ join sep (y # ys)"

text \<open>
  The first loop of \<^verbatim>\<open>_generate_final_summary\<close> splits the scores: a participant whose
  score is above \<open>TARGET_SCORE\<close> adds a sentence to the message, every other participant
  goes into \<^verbatim>\<open>valid_scores\<close>.
\<close>

definition busted_message :: "(string \<times> int) list \<Rightarrow> string" where
  "busted_message scores =
     concat (map (\<lambda>(player, score).
       if score > TARGET_SCORE then player @ '' BUSTED with '' @ str_int score @ ''! '' else [])
       scores)"

definition valid_scores :: "(string \<times> int) list \<Rightarrow> (string \<times> int) list" where
  "valid_scores scores = filter (\<lambda>(player, score). \<not> score > TARGET_SCORE) scores"

text \<open>\<^verbatim>\<open>max\<close> of a list that is not empty.\<close>

definition max_list :: "int list \<Rightarrow> int" where
  "max_list xs = fold max (tl xs) (hd xs)"

definition winners :: "(string \<times> int) list \<Rightarrow> string list" where
  "winners scores =
     (let max_score = max_list (map snd (valid_scores scores)) in
      map fst (filter (\<lambda>(p, s). s = max_score) (valid_scores scores)))"

text \<open>The text that \<^verbatim>\<open>_generate_final_summary\<close> hands to \<^verbatim>\<open>_set_message\<close>.\<close>

definition generate_final_summary :: "(string \<times> int) list \<Rightarrow> string" where
  "generate_final_summary scores =
     busted_message scores @
     (if valid_scores scores = [] then ''Everyone busted! The house wins.''
      else
        (let max_score = max_list (map snd (valid_scores scores));
             ws = winners scores
         in if length ws > 1 then
              ''It's a TIE between '' @ join '', '' ws @ '' with '' @ str_int max_score @ ''!''
            else
              ''CONGRATULATIONS! '' @ hd ws @ '' wins with a score of '' @ str_int max_score
                @ ''!''))"

section \<open>The turn controller\<close>

text \<open>
  \<^verbatim>\<open>_end_game\<close>. The summary at its end writes labels only, so the state after the game is
  the one the Dealer's final turn leaves; the summary text is
  \<open>generate_final_summary (player_scores g)\<close> of that state.
\<close>

definition end_game :: "env \<Rightarrow> game \<Rightarrow> error + game" where
  "end_game e g =
     bind_result (update_turn_highlight (g\<lparr>game_over := True\<rparr>)) (\<lambda>g1.
     bind_result (add_measurements_to_circuit g1) (\<lambda>g2.
     bind_result (process_quantum_results (mem e) g2) (\<lambda>g3.
       dealer_final_turn (rng e) g3)))"

definition next_turn :: "env \<Rightarrow> game \<Rightarrow> error + game" where
  "next_turn e g =
     (let g1 = g\<lparr>current_player_index := current_player_index g + 1\<rparr> in
      if current_player_index g1 < length (player_turn_order g1) then update_turn_highlight g1
      else
        (let g2 = g1\<lparr>current_round := current_round g1 + 1\<rparr> in
         if current_round g2 > 2 then end_game e (g2\<lparr>measure_level := 3\<rparr>)
         else
           update_turn_highlight
             (g2\<lparr>current_player_index := 0,
                 player_turn_order := determine_turn_order (coin e)\<rparr>)))"

text \<open>
  The three buttons; \<^verbatim>\<open>Re-Shuffle\<close> reads the card selector, a radio button with the two
  options \<^verbatim>\<open>'1'\<close> and \<^verbatim>\<open>'2'\<close>.
\<close>

datatype card_choice = Choice1 | Choice2

datatype button = Measure | Pass | ReShuffle card_choice

definition on_action_button_clicked :: "env \<Rightarrow> button \<Rightarrow> game \<Rightarrow> error + game" where
  "on_action_button_clicked e b g =
     (if current_player_index g < length (player_turn_order g) then
        (let player_num = player_turn_order g ! current_player_index g in
         case b of
           Measure \<Rightarrow> end_game e (g\<lparr>measure_level := current_round g + 1\<rparr>)
         | Pass \<Rightarrow> next_turn e g
         | ReShuffle choice \<Rightarrow>
             (let player_q = (if player_num = 1 then player1_q else player2_q);
                  qubits_to_affect =
                    (if choice = Choice1 then qslice player_q 3 6 else qslice player_q 0 3)
              in case qc g of
                   None \<Rightarrow> Inl AttributeError
                 | Some c \<Rightarrow>
                     next_turn e (g\<lparr>qc := Some (c @ map H_gate qubits_to_affect @ [Barrier])\<rparr>)))
      else Inl IndexError)"

text \<open>
  \<^verbatim>\<open>start_game\<close>: the three classical cards are drawn in the order Dealer, Player 1,
  Player 2. \<^verbatim>\<open>measure_level\<close> and \<^verbatim>\<open>player_scores\<close> are not reset.
\<close>

definition start_game :: "env \<Rightarrow> game \<Rightarrow> error + game" where
  "start_game e g =
     (let g1 = g\<lparr>game_over := False, current_round := 1, current_player_index := 0,
                 player_hands := []\<rparr>;
          g2 = g1\<lparr>initial_cards :=
                 AList.update ''Player 2'' (generate_random_card (rng e 2))
                   (AList.update ''Player 1'' (generate_random_card (rng e 1))
                     (AList.update ''Dealer'' (generate_random_card (rng e 0))
                       (initial_cards g1)))\<rparr>;
          g3 = g2\<lparr>qc := Some (prepare_quantum_circuit (angles e))\<rparr>;
          g4 = g3\<lparr>player_turn_order := determine_turn_order (coin e)\<rparr>
      in update_turn_highlight g4)"

section \<open>Sessions\<close>

text \<open>
  A session is the object built by \<^verbatim>\<open>__init__\<close> followed by events: a click on the start
  button (\<^verbatim>\<open>Start Game\<close>, later \<^verbatim>\<open>Play Again\<close>) or a click on one of the three action buttons,
  each with the randomness it consumes. An event that raises leaves no successor here.
\<close>

inductive reachable :: "game \<Rightarrow> bool" where
  init: "reachable init_game"
| start: "reachable g \<Longrightarrow> start_game e g = Inr g' \<Longrightarrow> reachable g'"
| click: "reachable g \<Longrightarrow> on_action_button_clicked e b g = Inr g' \<Longrightarrow> reachable g'"

text \<open>A sequence of action-button clicks, stopping at the first one that raises.\<close>

fun clicks :: "(env \<times> button) list \<Rightarrow> game \<Rightarrow> error + game" where
  "clicks [] g = Inr g"
| "clicks ((e, b) # rest) g = bind_result (on_action_button_clicked e b g) (clicks rest)"

text \<open>
  The cards that the first \<open>n\<close> iterations of the Dealer's loop draw when the loop starts
  at the \<open>k\<close>-th random value.
\<close>

definition drawn_cards :: "(nat \<Rightarrow> nat) \<Rightarrow> nat \<Rightarrow> nat \<Rightarrow> int list" where
  "drawn_cards r k n = map (\<lambda>i. generate_random_card (r (k + i))) [0..<n]"

text \<open>
  The position of a session in which \<open>k\<close> turns have been taken since the start and nobody
  has ended the game: two turns make a round, and the index counts the turns of the round.
\<close>

definition active_turn :: "nat \<Rightarrow> game \<Rightarrow> bool" where
  "active_turn k g \<longleftrightarrow>
     \<not> game_over g \<and> length (player_turn_order g) = 2 \<and> k < 4
     \<and> current_round g = (if k < 2 then 1 else 2) \<and> current_player_index g = k mod 2"

section \<open>A sample session\<close>

text \<open>
  The session of the scenario in the specification: the classical cards are Dealer 6,
  Player 1 5 and Player 2 7, every coin shows 0, every rotation angle is 0, and the
  registers read \<^verbatim>\<open>011010 110010 100110\<close> (Player 2, Player 1, Dealer), so that Player 1's
  quantum cards are 4 and 3.
\<close>

definition scenario_env :: env where
  "scenario_env =
     \<lparr>rng = (\<lambda>k. if k = 0 then 5 else if k = 1 then 4 else 6),
      angles = (\<lambda>k. 0),
      coin = False,
      mem = \<lparr>p2_res = [False, True, True, False, True, False],
             p1_res = [True, True, False, False, True, False],
             dealer_res = [True, False, False, True, True, False]\<rparr>\<rparr>"

text \<open>After \<^verbatim>\<open>Start Game\<close>.\<close>

definition scenario_started :: game where
  "scenario_started =
     \<lparr>qc = Some (prepare_quantum_circuit (\<lambda>k. 0)), player_scores = [],
      initial_cards = [(''Dealer'', 6), (''Player 1'', 5), (''Player 2'', 7)],
      player_hands = [], player_turn_order = [1, 2], current_player_index = 0,
      game_over = False, current_round = 1, measure_level = 3, action_box = Some 1\<rparr>"

text \<open>After both players have passed round 1.\<close>

definition scenario_round2 :: game where
  "scenario_round2 = scenario_started\<lparr>current_round := 2\<rparr>"

text \<open>After Player 1 has then pressed \<^verbatim>\<open>Measure\<close> in round 2.\<close>

definition scenario_ended3 :: game where
  "scenario_ended3 =
     \<lparr>qc = Some (prepare_quantum_circuit (\<lambda>k. 0)
        @ measure_all (qslice dealer_q 0 6) (cslice dealer_c 0 6)
        @ measure_all (qslice player1_q 0 6) (cslice player1_c 0 6)
        @ measure_all (qslice player2_q 0 6) (cslice player2_c 0 6)),
      player_scores = [(''Player 1'', 12), (''Player 2'', 17), (''Dealer'', 18)],
      initial_cards = [(''Dealer'', 6), (''Player 1'', 5), (''Player 2'', 7)],
      player_hands = [(''Player 1'', [5, 4, 3]), (''Player 2'', [7, 7, 3]),
                      (''Dealer'', [6, 2, 4, 6])],
      player_turn_order = [1, 2], current_player_index = 0,
      game_over = True, current_round = 2, measure_level = 3, action_box = None\<rparr>"

text \<open>After Player 1 has pressed \<^verbatim>\<open>Measure\<close> at once, in round 1.\<close>

definition scenario_ended2 :: game where
  "scenario_ended2 =
     \<lparr>qc = Some (prepare_quantum_circuit (\<lambda>k. 0)
        @ measure_all (qslice dealer_q 3 6) (cslice dealer_c 3 6)
        @ measure_all (qslice player1_q 3 6) (cslice player1_c 3 6)
        @ measure_all (qslice player2_q 3 6) (cslice player2_c 3 6)),
      player_scores = [(''Player 1'', 9), (''Player 2'', 14), (''Dealer'', 14)],
      initial_cards = [(''Dealer'', 6), (''Player 1'', 5), (''Player 2'', 7)],
      player_hands = [(''Player 1'', [5, 4]), (''Player 2'', [7, 7]), (''Dealer'', [6, 2, 6])],
      player_turn_order = [1, 2], current_player_index = 0,
      game_over = True, current_round = 1, measure_level = 2, action_box = None\<rparr>"

text \<open>That session just before the Dealer's final turn: the Dealer holds 6 and 2.\<close>

definition scenario_measured2 :: game where
  "scenario_measured2 =
     scenario_ended2\<lparr>player_scores := [(''Player 1'', 9), (''Player 2'', 14), (''Dealer'', 8)],
       player_hands := [(''Player 1'', [5, 4]), (''Player 2'', [7, 7]), (''Dealer'', [6, 2])]\<rparr>"

text \<open>After both players have instead passed round 2 as well.\<close>

definition scenario_passed_out :: game where
  "scenario_passed_out = scenario_ended3\<lparr>current_player_index := 2, current_round := 3\<rparr>"

section \<open>What the simulator samples from the circuit\<close>

text \<open>
  \<^verbatim>\<open>self.backend.run(self.qc, shots=1, memory=True)\<close> samples one outcome of all qubits from
  the state the circuit prepares out of all qubits at 0. The gates of the game are Qiskit's
  \<^verbatim>\<open>h\<close>, \<^verbatim>\<open>ry\<close> and \<^verbatim>\<open>cx\<close>, whose matrices are real:
  \<^item> \<^verbatim>\<open>h\<close> maps \<open>|0>\<close> to \<open>(|0> + |1>) / sqrt 2\<close> and \<open>|1>\<close> to \<open>(|0> - |1>) / sqrt 2\<close>;
  \<^item> \<^verbatim>\<open>ry(t)\<close> maps \<open>|0>\<close> to \<open>cos (t/2) |0> + sin (t/2) |1>\<close> and \<open>|1>\<close> to
    \<open>- sin (t/2) |0> + cos (t/2) |1>\<close>;
  \<^item> \<^verbatim>\<open>cx(c, t)\<close> flips the target \<open>t\<close> where the control \<open>c\<close> is 1.

  The only two-qubit gates of the game are the six \<^verbatim>\<open>cx\<close> of \<^verbatim>\<open>_prepare_quantum_circuit\<close>, each
  between one qubit of Player 1 and one of Player 2, and no qubit is in two of them. The
  state is therefore a product over these six pairs (and the Dealer's qubits), and a pair
  \<open>(p, q)\<close> has a state of its own: the four amplitudes \<open>\<psi> a b\<close> of \<open>p\<close> reading \<open>a\<close> and \<open>q\<close>
  reading \<open>b\<close>. \<open>pair_closed\<close> says that a circuit keeps the pair to itself.
\<close>

type_synonym amplitudes = "bool \<Rightarrow> bool \<Rightarrow> real"

definition ket00 :: amplitudes where
  "ket00 = (\<lambda>a b. if a \<or> b then 0 else 1)"

definition hadamard_first :: "amplitudes \<Rightarrow> amplitudes" where
  "hadamard_first \<psi> = (\<lambda>a b. (\<psi> False b + (if a then - \<psi> True b else \<psi> True b)) / sqrt 2)"

definition hadamard_second :: "amplitudes \<Rightarrow> amplitudes" where
  "hadamard_second \<psi> = (\<lambda>a b. (\<psi> a False + (if b then - \<psi> a True else \<psi> a True)) / sqrt 2)"

definition ry_first :: "real \<Rightarrow> amplitudes \<Rightarrow> amplitudes" where
  "ry_first t \<psi> =
     (\<lambda>a b. if a then sin (t / 2) * \<psi> False b + cos (t / 2) * \<psi> True b
            else cos (t / 2) * \<psi> False b - sin (t / 2) * \<psi> True b)"

definition ry_second :: "real \<Rightarrow> amplitudes \<Rightarrow> amplitudes" where
  "ry_second t \<psi> =
     (\<lambda>a b. if b then sin (t / 2) * \<psi> a False + cos (t / 2) * \<psi> a True
            else cos (t / 2) * \<psi> a False - sin (t / 2) * \<psi> a True)"

definition cx_first_second :: "amplitudes \<Rightarrow> amplitudes" where
  "cx_first_second \<psi> = (\<lambda>a b. \<psi> a (if a then \<not> b else b))"

definition cx_second_first :: "amplitudes \<Rightarrow> amplitudes" where
  "cx_second_first \<psi> = (\<lambda>a b. \<psi> (if b then \<not> a else a) b)"

text \<open>One instruction of the circuit, seen from the pair \<open>(p, q)\<close>.\<close>

fun apply_gate :: "qubit \<Rightarrow> qubit \<Rightarrow> amplitudes \<Rightarrow> gate \<Rightarrow> amplitudes" where
  "apply_gate p q \<psi> (H_gate x) =
     (if x = p then hadamard_first \<psi> else if x = q then hadamard_second \<psi> else \<psi>)"
| "apply_gate p q \<psi> (RY_gate t x) =
     (if x = p then ry_first t \<psi> else if x = q then ry_second t \<psi> else \<psi>)"
| "apply_gate p q \<psi> (CX_gate c t) =
     (if c = p \<and> t = q then cx_first_second \<psi>
      else if c = q \<and> t = p then cx_second_first \<psi> else \<psi>)"
| "apply_gate p q \<psi> Barrier = \<psi>"
| "apply_gate p q \<psi> (Measure_gate x c) = \<psi>"

fun gate_closed :: "qubit \<Rightarrow> qubit \<Rightarrow> gate \<Rightarrow> bool" where
  "gate_closed p q (CX_gate c t) =
     ((c = p \<and> t = q) \<or> (c = q \<and> t = p) \<or> (c \<noteq> p \<and> c \<noteq> q \<and> t \<noteq> p \<and> t \<noteq> q))"
| "gate_closed p q (Measure_gate x c) = (x \<noteq> p \<and> x \<noteq> q)"
| "gate_closed p q g = True"

definition pair_closed :: "qubit \<Rightarrow> qubit \<Rightarrow> gate list \<Rightarrow> bool" where
  "pair_closed p q gates \<longleftrightarrow> p \<noteq> q \<and> list_all (gate_closed p q) gates"

definition pair_state :: "qubit \<Rightarrow> qubit \<Rightarrow> gate list \<Rightarrow> amplitudes" where
  "pair_state p q gates = foldl (apply_gate p q) ket00 gates"



text \<open>
  The \<^verbatim>\<open>cx\<close> gates of \<^verbatim>\<open>_prepare_quantum_circuit\<close> connect \<^verbatim>\<open>player1_q[i]\<close> with
  \<^verbatim>\<open>player2_q[entangled_with i]\<close>: 3 with 5, 4 with 4, 5 with 3, 0 with 2, 1 with 1, 2 with 0.
\<close>

definition entangled_with :: "nat \<Rightarrow> nat" where
  "entangled_with i = (if i < 3 then 2 - i else 8 - i)"

text \<open>
  The qubits of a quantum card: card 1 is \<^verbatim>\<open>[3:6]\<close> and card 2 is \<^verbatim>\<open>[0:3]\<close> of the player's
  register, as \<^verbatim>\<open>Re-Shuffle\<close> selects them.
\<close>

definition card_qubits :: "card_choice \<Rightarrow> nat list" where
  "card_qubits choice = (if choice = Choice1 then [3, 4, 5] else [0, 1, 2])"

text \<open>The instructions that one \<^verbatim>\<open>Re-Shuffle\<close> of the player \<open>player_num\<close> appends.\<close>

definition re_shuffle :: "nat \<Rightarrow> card_choice \<Rightarrow> gate list" where
  "re_shuffle player_num choice =
     map H_gate
       (if choice = Choice1
        then qslice (if player_num = 1 then player1_q else player2_q) 3 6
        else qslice (if player_num = 1 then player1_q else player2_q) 0 3)
     @ [Barrier]"


text \<open>
  The probability that the qubits of both players' card \<open>choice\<close> read as the outcome \<open>x\<close>
  of all qubits says.
\<close>

definition joint_prob :: "gate list \<Rightarrow> card_choice \<Rightarrow> (qubit \<Rightarrow> bool) \<Rightarrow> real" where
  "joint_prob gates choice x =
     prod_list (map (\<lambda>i.
         (pair_state (player1_q, i) (player2_q, entangled_with i) gates
            (x (player1_q, i)) (x (player2_q, entangled_with i)))\<^sup>2)
       (card_qubits choice))"

text \<open>
  The memory string of an outcome. A classical bit holds the outcome of the qubit that was
  measured into it last, and 0 when none was; Qiskit prints a register with its highest bit
  first.
\<close>

fun measured_qubit :: "clbit \<Rightarrow> gate list \<Rightarrow> qubit option" where
  "measured_qubit c [] = None"
| "measured_qubit c (g # gates) =
     (case measured_qubit c gates of
        Some q \<Rightarrow> Some q
      | None \<Rightarrow> (case g of Measure_gate q c' \<Rightarrow> if c' = c then Some q else None | _ \<Rightarrow> None))"

definition register_string :: "gate list \<Rightarrow> (qubit \<Rightarrow> bool) \<Rightarrow> cregister \<Rightarrow> bool list" where
  "register_string gates x creg =
     map (\<lambda>i. case measured_qubit (creg, i) gates of None \<Rightarrow> False | Some q \<Rightarrow> x q)
       (rev [0..<num_qubits])"

definition memory_of :: "gate list \<Rightarrow> (qubit \<Rightarrow> bool) \<Rightarrow> memory" where
  "memory_of gates x =
     \<lparr>p2_res = register_string gates x player2_c,
      p1_res = register_string gates x player1_c,
      dealer_res = register_string gates x dealer_c\<rparr>"

text \<open>
  The bit reversal of a card value in the words of the specification: the three bits of
  the value less 1, read in the opposite order, and 1 added again.
\<close>

definition bit_reversed_card :: "int \<Rightarrow> int" where
  "bit_reversed_card v =
     4 * ((v - 1) mod 2) + 2 * ((v - 1) div 2 mod 2) + (v - 1) div 4 mod 2 + 1"

text \<open>
  The outcome of the 18 qubits behind the registers \<^verbatim>\<open>011010 110010 100110\<close> of the sample
  session: the qubits that read 1.
\<close>

definition scenario_outcome :: "qubit \<Rightarrow> bool" where
  "scenario_outcome q \<longleftrightarrow>
     q \<in> {(player2_q, 4), (player2_q, 3), (player2_q, 1),
          (player1_q, 5), (player1_q, 4), (player1_q, 1),
          (dealer_q, 5), (dealer_q, 2), (dealer_q, 1)}"

section \<open>Two sessions with a re-shuffle\<close>

text \<open>
  The sample session in which Player 1 re-shuffles the first quantum card in the first
  turn, and an outcome of the circuit in which all qubits of Player 2 read 1 and all
  others 0. \<open>uncorrelated_env\<close> gives the simulator's answer for that outcome when Player 2
  then measures in round 1.
\<close>

definition scenario_reshuffled :: game where
  "scenario_reshuffled =
     scenario_started\<lparr>qc := Some (prepare_quantum_circuit (\<lambda>k. 0) @ re_shuffle 1 Choice1),
       current_player_index := 1, action_box := Some 2\<rparr>"

definition uncorrelated_outcome :: "qubit \<Rightarrow> bool" where
  "uncorrelated_outcome q = (fst q = player2_q)"

definition uncorrelated_env :: env where
  "uncorrelated_env =
     scenario_env\<lparr>mem := memory_of
       (prepare_quantum_circuit (\<lambda>k. 0) @ re_shuffle 1 Choice1
        @ measure_all (qslice dealer_q 3 6) (cslice dealer_c 3 6)
        @ measure_all (qslice player1_q 3 6) (cslice player1_c 3 6)
        @ measure_all (qslice player2_q 3 6) (cslice player2_c 3 6))
       uncorrelated_outcome\<rparr>"




section \<open>Properties\<close>

subsection \<open>Card values, the hands and the Dealer's loop\<close>

lemma generate_random_card_range: "1 \<le> generate_random_card r \<and> generate_random_card r \<le> 8"
  by (simp add: generate_random_card_def MIN_CARD_VALUE_def MAX_CARD_VALUE_def)

lemma int_base2_snoc: "int_base2 (bs @ [b]) = 2 * int_base2 bs + (if b then 1 else 0)"
  by (simp add: int_base2_def)

lemma int_base2_bounds: "0 \<le> int_base2 bs \<and> int_base2 bs < 2 ^ length bs"
  by (induction bs rule: rev_induct) (auto simp: int_base2_snoc int_base2_def)

lemma quantum_card_range:
  assumes "quantum_card res lo (lo + 3) = Inr v"
  shows "1 \<le> v \<and> v \<le> 8"
proof -
  let ?bs = "rev (take 3 (drop lo res))"
  have len: "length ?bs \<le> 3" by simp
  have v: "v = int_base2 ?bs + 1"
    using assms by (auto simp: quantum_card_def get_card_value_from_binary_def split: if_splits)
  have "int_base2 ?bs < 2 ^ length ?bs" "0 \<le> int_base2 ?bs"
    using int_base2_bounds by blast+
  moreover have "(2::int) ^ length ?bs \<le> 2 ^ 3"
    using len by (intro power_increasing) auto
  ultimately show ?thesis using v by simp
qed

lemma drawn_cards_Suc: "drawn_cards r k (Suc n) = generate_random_card (r k) # drawn_cards r (Suc k) n"
  unfolding drawn_cards_def
  by (simp add: map_upt_Suc del: upt_Suc)

lemma dealer_loop_result:
  assumes "map_of (player_hands g) ''Dealer'' = Some hand"
  shows "\<exists>n g'. dealer_final_turn_loop r k t g = Inr g'
      \<and> map_of (player_hands g') ''Dealer'' = Some (hand @ drawn_cards r k n)
      \<and> (n = 0 \<longrightarrow> g' = g)
      \<and> (0 < n \<longrightarrow> map_of (player_scores g') ''Dealer'' = Some (t + sum_list (drawn_cards r k n)))
      \<and> 14 \<le> t + sum_list (drawn_cards r k n)
      \<and> (\<forall>m<n. t + sum_list (drawn_cards r k m) < 14)
      \<and> int n \<le> max 0 (14 - t)"
  using assms
proof (induction r k t g arbitrary: hand rule: dealer_final_turn_loop.induct)
  case (1 r k t g)
  show ?case
  proof (cases "t < DEALER_STANDS_THRESHOLD")
    case False
    then have "dealer_final_turn_loop r k t g = Inr g"
      by (subst dealer_final_turn_loop.simps) simp
    moreover have "14 \<le> t" using False by (simp add: DEALER_STANDS_THRESHOLD_def)
    ultimately show ?thesis using "1.prems"
      by (intro exI[of _ 0] exI[of _ g]) (simp add: drawn_cards_def)
  next
    case True
    let ?c = "generate_random_card (r k)"
    let ?hands = "AList.update ''Dealer'' (hand @ [?c]) (player_hands g)"
    let ?g1 = "g\<lparr>player_hands := ?hands,
                  player_scores := AList.update ''Dealer'' (t + ?c) (player_scores g)\<rparr>"
    have ac: "append_card ''Dealer'' ?c (player_hands g) = Inr ?hands"
      using "1.prems" by (simp add: append_card_def)
    have step: "dealer_final_turn_loop r k t g = dealer_final_turn_loop r (k + 1) (t + ?c) ?g1"
      using True ac by (subst dealer_final_turn_loop.simps) simp
    have h1: "map_of (player_hands ?g1) ''Dealer'' = Some (hand @ [?c])"
      by (simp add: update_conv')
    from "1.IH"[OF True ac h1]
    obtain n g' where n:
      "dealer_final_turn_loop r (k + 1) (t + ?c) ?g1 = Inr g'"
      "map_of (player_hands g') ''Dealer'' = Some ((hand @ [?c]) @ drawn_cards r (k + 1) n)"
      "n = 0 \<longrightarrow> g' = ?g1"
      "0 < n \<longrightarrow> map_of (player_scores g') ''Dealer'' = Some (t + ?c + sum_list (drawn_cards r (k + 1) n))"
      "14 \<le> t + ?c + sum_list (drawn_cards r (k + 1) n)"
      "\<forall>m<n. t + ?c + sum_list (drawn_cards r (k + 1) m) < 14"
      "int n \<le> max 0 (14 - (t + ?c))"
      by blast
    have t14: "t < 14" using True by (simp add: DEALER_STANDS_THRESHOLD_def)
    have c1: "1 \<le> ?c" using generate_random_card_range by blast
    have sc: "map_of (player_scores g') ''Dealer'' = Some (t + sum_list (drawn_cards r k (Suc n)))"
    proof (cases "n = 0")
      case True
      then show ?thesis using n(3) by (simp add: drawn_cards_Suc drawn_cards_def update_conv')
    next
      case False
      then show ?thesis using n(4) by (simp add: drawn_cards_Suc add.assoc)
    qed
    have below: "\<forall>m<Suc n. t + sum_list (drawn_cards r k m) < 14"
    proof (intro allI impI)
      fix m assume m: "m < Suc n"
      show "t + sum_list (drawn_cards r k m) < 14"
      proof (cases m)
        case 0
        then show ?thesis using t14 by (simp add: drawn_cards_def)
      next
        case (Suc m')
        then have "m' < n" using m by simp
        then show ?thesis using n(6) Suc by (simp add: drawn_cards_Suc add.assoc)
      qed
    qed
    show ?thesis
      apply (rule exI[of _ "Suc n"], rule exI[of _ g'])
      using step n(1) n(2) n(5) n(7) sc below t14 c1
      by (simp add: drawn_cards_Suc add.assoc)
  qed
qed


lemma first_quantum_cards_Inr:
  "first_quantum_cards m [(''Player 1'', [c1]), (''Player 2'', [c2]), (''Dealer'', [cd])] = Inr hs \<longleftrightarrow>
     (\<exists>a b c. quantum_card (p1_res m) 0 3 = Inr a \<and> quantum_card (p2_res m) 0 3 = Inr b
        \<and> quantum_card (dealer_res m) 0 3 = Inr c
        \<and> hs = [(''Player 1'', [c1, a]), (''Player 2'', [c2, b]), (''Dealer'', [cd, c])])"
  by (auto simp: first_quantum_cards_def bind_result_def append_card_def split: sum.splits)

lemma second_quantum_cards_Inr:
  "second_quantum_cards m [(''Player 1'', h1), (''Player 2'', h2), (''Dealer'', dh)] = Inr hs \<longleftrightarrow>
     (\<exists>a b. quantum_card (p1_res m) 3 6 = Inr a \<and> quantum_card (p2_res m) 3 6 = Inr b
        \<and> (if sum_list dh < 14
            then \<exists>c. quantum_card (dealer_res m) 3 6 = Inr c
               \<and> hs = [(''Player 1'', h1 @ [a]), (''Player 2'', h2 @ [b]), (''Dealer'', dh @ [c])]
            else hs = [(''Player 1'', h1 @ [a]), (''Player 2'', h2 @ [b]), (''Dealer'', dh)]))"
  by (auto simp: second_quantum_cards_def bind_result_def append_card_def
      DEALER_STANDS_THRESHOLD_def split: sum.splits)

lemma score_hands_three:
  "map_of (score_hands [(''Player 1'', h1), (''Player 2'', h2), (''Dealer'', dh)] scores) ''Dealer''
     = Some (sum_list dh)"
  by (simp add: score_hands_def update_conv')

lemma process_quantum_results_dealer:
  assumes "process_quantum_results m g = Inr g'"
    and "map_of (initial_cards g) ''Dealer'' = Some cd" and "1 \<le> cd" and "cd \<le> 8"
  shows "\<exists>dh. map_of (player_hands g') ''Dealer'' = Some dh
      \<and> map_of (player_scores g') ''Dealer'' = Some (sum_list dh)
      \<and> 2 \<le> sum_list dh \<and> sum_list dh \<le> 21"
proof -
  from assms(1,2) obtain c1 c2 hands1 hands where
    f: "first_quantum_cards m [(''Player 1'', [c1]), (''Player 2'', [c2]), (''Dealer'', [cd])] = Inr hands1"
    and s: "(if measure_level g = 3 then second_quantum_cards m hands1 else Inr hands1) = Inr hands"
    and g': "g' = g\<lparr>player_hands := hands, player_scores := score_hands hands (player_scores g)\<rparr>"
    by (auto simp: process_quantum_results_def bind_result_def split: option.splits sum.splits)
  from f obtain a b c where abc: "quantum_card (dealer_res m) 0 3 = Inr c"
    "hands1 = [(''Player 1'', [c1, a]), (''Player 2'', [c2, b]), (''Dealer'', [cd, c])]"
    unfolding first_quantum_cards_Inr by blast
  have c: "1 \<le> c \<and> c \<le> 8" using quantum_card_range[of _ 0] abc(1) by simp
  show ?thesis
  proof (cases "measure_level g = 3")
    case False
    then have "hands = hands1" using s by simp
    then show ?thesis using g' abc(2) c assms(3,4) by (simp add: score_hands_three)
  next
    case True
    then have "second_quantum_cards m hands1 = Inr hands" using s by simp
    then obtain a' b' where
      h: "if sum_list [cd, c] < 14
            then \<exists>c'. quantum_card (dealer_res m) 3 6 = Inr c'
               \<and> hands = [(''Player 1'', [c1, a] @ [a']), (''Player 2'', [c2, b] @ [b']), (''Dealer'', [cd, c] @ [c'])]
            else hands = [(''Player 1'', [c1, a] @ [a']), (''Player 2'', [c2, b] @ [b']), (''Dealer'', [cd, c])]"
      unfolding abc(2) second_quantum_cards_Inr by blast
    show ?thesis
    proof (cases "sum_list [cd, c] < 14")
      case False
      then show ?thesis using h g' c assms(3,4) by (simp add: score_hands_three)
    next
      case True
      then obtain c' where c': "quantum_card (dealer_res m) 3 6 = Inr c'"
        "hands = [(''Player 1'', [c1, a] @ [a']), (''Player 2'', [c2, b] @ [b']), (''Dealer'', [cd, c] @ [c'])]"
        using h by auto
      have "1 \<le> c' \<and> c' \<le> 8" using quantum_card_range[of _ 3] c'(1) by simp
      then show ?thesis using True c' g' c assms(3,4) by (simp add: score_hands_three)
    qed
  qed
qed


lemma drawn_cards_snoc: "drawn_cards r k (Suc n) = drawn_cards r k n @ [generate_random_card (r (k + n))]"
  by (simp add: drawn_cards_def)

lemma dealer_loop_frame:
  "dealer_final_turn_loop r k t g = Inr g' \<Longrightarrow>
     g' = g\<lparr>player_hands := player_hands g', player_scores := player_scores g'\<rparr>"
proof (induction r k t g rule: dealer_final_turn_loop.induct)
  case (1 r k t g)
  show ?case
  proof (cases "t < DEALER_STANDS_THRESHOLD")
    case False
    then show ?thesis using "1.prems" by (subst (asm) dealer_final_turn_loop.simps) simp
  next
    case True
    then obtain hands where
      ac: "append_card ''Dealer'' (generate_random_card (r k)) (player_hands g) = Inr hands"
      using "1.prems" by (subst (asm) dealer_final_turn_loop.simps) (auto split: sum.splits)
    let ?g1 = "g\<lparr>player_hands := hands,
                  player_scores := AList.update ''Dealer'' (t + generate_random_card (r k)) (player_scores g)\<rparr>"
    have "dealer_final_turn_loop r (k + 1) (t + generate_random_card (r k)) ?g1 = Inr g'"
      using "1.prems" True ac by (subst (asm) dealer_final_turn_loop.simps) simp
    from "1.IH"[OF True ac this] show ?thesis
      by (cases g, cases g') simp
  qed
qed

lemma dealer_loop_total_le:
  assumes "14 \<le> t + sum_list (drawn_cards r k n)"
    and "\<forall>m<n. t + sum_list (drawn_cards r k m) < 14"
  shows "t + sum_list (drawn_cards r k n) \<le> max t 21"
proof (cases n)
  case 0
  then show ?thesis by (simp add: drawn_cards_def)
next
  case (Suc m)
  then have "t + sum_list (drawn_cards r k m) < 14" using assms(2) by simp
  moreover have "generate_random_card (r (k + m)) \<le> 8" using generate_random_card_range by blast
  ultimately show ?thesis unfolding Suc drawn_cards_snoc by simp
qed

lemma update_turn_highlight_over:
  "game_over g \<Longrightarrow> update_turn_highlight g = Inr (g\<lparr>action_box := None\<rparr>)"
  by (simp add: update_turn_highlight_def)

lemma add_measurements_frame:
  "add_measurements_to_circuit g = Inr g' \<Longrightarrow> g' = g\<lparr>qc := qc g'\<rparr>"
  by (cases g) (auto simp: add_measurements_to_circuit_def split: option.splits if_splits)

lemma process_quantum_results_frame:
  "process_quantum_results m g = Inr g' \<Longrightarrow>
     g' = g\<lparr>player_hands := player_hands g', player_scores := player_scores g'\<rparr>"
  by (cases g) (auto simp: process_quantum_results_def bind_result_def split: option.splits sum.splits)

lemma dealer_final_turn_frame:
  "dealer_final_turn r g = Inr g' \<Longrightarrow>
     g' = g\<lparr>player_hands := player_hands g', player_scores := player_scores g'\<rparr>"
  by (auto simp: dealer_final_turn_def split: option.splits dest: dealer_loop_frame)

lemma end_game_Inr:
  assumes "end_game e g = Inr g'"
  obtains g2 g3 where
    "add_measurements_to_circuit (g\<lparr>game_over := True, action_box := None\<rparr>) = Inr g2"
    "process_quantum_results (mem e) g2 = Inr g3"
    "dealer_final_turn (rng e) g3 = Inr g'"
  using assms
  by (auto simp: end_game_def update_turn_highlight_over bind_result_def split: sum.splits)

lemma end_game_frame:
  assumes "end_game e g = Inr g'"
  shows "g' = g\<lparr>game_over := True, action_box := None, qc := qc g',
               player_hands := player_hands g', player_scores := player_scores g'\<rparr>"
proof -
  from assms obtain g2 g3 where
    a: "add_measurements_to_circuit (g\<lparr>game_over := True, action_box := None\<rparr>) = Inr g2"
    and p: "process_quantum_results (mem e) g2 = Inr g3"
    and d: "dealer_final_turn (rng e) g3 = Inr g'"
    by (rule end_game_Inr)
  from add_measurements_frame[OF a] process_quantum_results_frame[OF p] dealer_final_turn_frame[OF d]
  show ?thesis
    by (cases g, cases g2, cases g3, cases g') simp
qed

lemma end_game_dealer_score:
  assumes "end_game e g = Inr g'"
    and "map_of (initial_cards g) ''Dealer'' = Some cd" and "1 \<le> cd" and "cd \<le> 8"
  shows "\<exists>s. map_of (player_scores g') ''Dealer'' = Some s \<and> 14 \<le> s \<and> s \<le> 21"
proof -
  from assms(1) obtain g2 g3 where
    a: "add_measurements_to_circuit (g\<lparr>game_over := True, action_box := None\<rparr>) = Inr g2"
    and p: "process_quantum_results (mem e) g2 = Inr g3"
    and d: "dealer_final_turn (rng e) g3 = Inr g'"
    by (rule end_game_Inr)
  have "initial_cards g2 = initial_cards g"
    using add_measurements_frame[OF a] by (cases g, cases g2) simp
  then have "map_of (initial_cards g2) ''Dealer'' = Some cd" using assms(2) by simp
  from process_quantum_results_dealer[OF p this assms(3,4)] obtain dh where dh:
    "map_of (player_hands g3) ''Dealer'' = Some dh"
    "map_of (player_scores g3) ''Dealer'' = Some (sum_list dh)"
    "2 \<le> sum_list dh" "sum_list dh \<le> 21"
    by blast
  let ?t = "sum_list dh"
  have l: "dealer_final_turn_loop (rng e) 0 ?t g3 = Inr g'"
    using d dh(2) by (simp add: dealer_final_turn_def)
  obtain n g'' where n0:
    "dealer_final_turn_loop (rng e) 0 ?t g3 = Inr g''"
    "n = 0 \<longrightarrow> g'' = g3"
    "0 < n \<longrightarrow> map_of (player_scores g'') ''Dealer'' = Some (?t + sum_list (drawn_cards (rng e) 0 n))"
    "14 \<le> ?t + sum_list (drawn_cards (rng e) 0 n)"
    "\<forall>m<n. ?t + sum_list (drawn_cards (rng e) 0 m) < 14"
    using dealer_loop_result[OF dh(1), of "rng e" 0 ?t]
    by (elim exE conjE) (rule that, assumption+)
  have gg: "g'' = g'" using n0(1) unfolding l by (rule sum.inject(2)[THEN iffD1, symmetric])
  note n = n0(2-5)[unfolded gg]
  have le: "?t + sum_list (drawn_cards (rng e) 0 n) \<le> 21"
    using dealer_loop_total_le[OF n(3,4)] dh(4) by simp
  show ?thesis
  proof (cases "n = 0")
    case True
    then have "g' = g3" using n(1) by blast
    moreover have "14 \<le> ?t" using n(3) True by (simp add: drawn_cards_def)
    ultimately show ?thesis using dh(2,4) by simp
  next
    case False
    then have "map_of (player_scores g') ''Dealer'' = Some (?t + sum_list (drawn_cards (rng e) 0 n))"
      using n(2) by blast
    then show ?thesis using n(3) le by blast
  qed
qed

subsection \<open>The events of a session\<close>

lemma update_turn_highlight_Inr:
  "update_turn_highlight g = Inr g' \<Longrightarrow>
     \<exists>ab. g' = g\<lparr>action_box := ab\<rparr> \<and> (game_over g \<longrightarrow> ab = None)"
  by (auto simp: update_turn_highlight_def Let_def split: if_splits)

lemma next_turn_cases:
  assumes "next_turn e g = Inr g'"
  shows "(Suc (current_player_index g) < length (player_turn_order g)
          \<and> (\<exists>ab. g' = g\<lparr>current_player_index := Suc (current_player_index g), action_box := ab\<rparr>
                \<and> (game_over g \<longrightarrow> ab = None)))
       \<or> (\<not> Suc (current_player_index g) < length (player_turn_order g) \<and> 2 \<le> current_round g
          \<and> end_game e (g\<lparr>current_player_index := Suc (current_player_index g),
                           current_round := current_round g + 1, measure_level := 3\<rparr>) = Inr g')
       \<or> (\<not> Suc (current_player_index g) < length (player_turn_order g) \<and> current_round g < 2
          \<and> (\<exists>ab. g' = g\<lparr>current_player_index := 0, current_round := current_round g + 1,
                           player_turn_order := determine_turn_order (coin e), action_box := ab\<rparr>
                \<and> (game_over g \<longrightarrow> ab = None)))"
proof (cases "Suc (current_player_index g) < length (player_turn_order g)")
  case True
  then have "update_turn_highlight (g\<lparr>current_player_index := Suc (current_player_index g)\<rparr>) = Inr g'"
    using assms by (simp add: next_turn_def Let_def)
  from update_turn_highlight_Inr[OF this] True show ?thesis by auto
next
  case False
  show ?thesis
  proof (cases "2 \<le> current_round g")
    case True
    then show ?thesis using assms False by (simp add: next_turn_def Let_def)
  next
    case r: False
    then have "update_turn_highlight
        (g\<lparr>current_player_index := Suc (current_player_index g), current_round := current_round g + 1,
           current_player_index := 0, player_turn_order := determine_turn_order (coin e)\<rparr>) = Inr g'"
      using assms False by (simp add: next_turn_def Let_def)
    from update_turn_highlight_Inr[OF this] False r show ?thesis by (cases g) auto
  qed
qed

lemma click_cases:
  assumes "on_action_button_clicked e b g = Inr g'"
  obtains
    (measure) "b = Measure" "current_player_index g < length (player_turn_order g)"
      "end_game e (g\<lparr>measure_level := current_round g + 1\<rparr>) = Inr g'"
  | (pass) "b = Pass" "current_player_index g < length (player_turn_order g)"
      "next_turn e g = Inr g'"
  | (reshuffle) choice c where "b = ReShuffle choice" "current_player_index g < length (player_turn_order g)"
      "qc g = Some c"
      "next_turn e (g\<lparr>qc := Some (c @ map H_gate
          (if choice = Choice1
           then qslice (if player_turn_order g ! current_player_index g = 1 then player1_q else player2_q) 3 6
           else qslice (if player_turn_order g ! current_player_index g = 1 then player1_q else player2_q) 0 3)
          @ [Barrier])\<rparr>) = Inr g'"
  using assms
  by (cases b) (auto simp: on_action_button_clicked_def Let_def split: if_splits option.splits)

lemma start_game_Inr:
  assumes "start_game e g = Inr g'"
  shows "\<exists>ab. g' = g\<lparr>game_over := False, current_round := 1, current_player_index := 0,
      player_hands := [],
      initial_cards := AList.update ''Player 2'' (generate_random_card (rng e 2))
                   (AList.update ''Player 1'' (generate_random_card (rng e 1))
                     (AList.update ''Dealer'' (generate_random_card (rng e 0))
                       (initial_cards g))),
      qc := Some (prepare_quantum_circuit (angles e)),
      player_turn_order := determine_turn_order (coin e),
      action_box := ab\<rparr>"
  using assms unfolding start_game_def Let_def
  by (auto dest!: update_turn_highlight_Inr)

lemma reachable_invariant:
  "reachable g \<Longrightarrow>
     (player_turn_order g \<noteq> [] \<longrightarrow>
        (\<exists>cd. map_of (initial_cards g) ''Dealer'' = Some cd \<and> 1 \<le> cd \<and> cd \<le> 8))
     \<and> (game_over g \<longrightarrow>
        (\<exists>s. map_of (player_scores g) ''Dealer'' = Some s \<and> 14 \<le> s \<and> s \<le> 21))"
proof (induction rule: reachable.induct)
  case init
  show ?case by (simp add: init_game_def)
next
  case (start g e g')
  from start_game_Inr[OF start.hyps(2)] obtain ab where g': "g' = g\<lparr>game_over := False, current_round := 1, current_player_index := 0,
      player_hands := [],
      initial_cards := AList.update ''Player 2'' (generate_random_card (rng e 2))
                   (AList.update ''Player 1'' (generate_random_card (rng e 1))
                     (AList.update ''Dealer'' (generate_random_card (rng e 0))
                       (initial_cards g))),
      qc := Some (prepare_quantum_circuit (angles e)),
      player_turn_order := determine_turn_order (coin e),
      action_box := ab\<rparr>" by blast
  show ?case unfolding g' using generate_random_card_range[of "rng e 0"]
    by (simp add: update_conv')
next
  case (click g e b g')
  have idx: "current_player_index g < length (player_turn_order g)"
    using click.hyps(2) by (rule click_cases)
  then have "player_turn_order g \<noteq> []" by auto
  with click.IH obtain cd where cd: "map_of (initial_cards g) ''Dealer'' = Some cd" "1 \<le> cd" "cd \<le> 8"
    by blast
  have eg: "?case" if "end_game e g0 = Inr g'" "initial_cards g0 = initial_cards g" for g0
  proof -
    have "map_of (initial_cards g0) ''Dealer'' = Some cd" using that(2) cd(1) by simp
    from end_game_dealer_score[OF that(1) this cd(2,3)]
    have s: "\<exists>s. map_of (player_scores g') ''Dealer'' = Some s \<and> 14 \<le> s \<and> s \<le> 21" .
    have "initial_cards g' = initial_cards g0"
      by (subst end_game_frame[OF that(1)]) simp
    then show ?thesis using s cd that(2) by auto
  qed
  have nt: "?case" if "next_turn e g0 = Inr g'" "initial_cards g0 = initial_cards g"
    "player_scores g0 = player_scores g" "game_over g0 = game_over g"
    "player_turn_order g0 = player_turn_order g" for g0
    using next_turn_cases[OF that(1)]
  proof (elim disjE conjE exE)
    fix ab assume "g' = g0\<lparr>current_player_index := Suc (current_player_index g0), action_box := ab\<rparr>"
    then show ?thesis using click.IH that(2-5) by simp
  next
    assume "end_game e (g0\<lparr>current_player_index := Suc (current_player_index g0),
                           current_round := current_round g0 + 1, measure_level := 3\<rparr>) = Inr g'"
    then show ?thesis by (rule eg) (simp add: that(2))
  next
    fix ab assume "g' = g0\<lparr>current_player_index := 0, current_round := current_round g0 + 1,
                           player_turn_order := determine_turn_order (coin e), action_box := ab\<rparr>"
    then show ?thesis using click.IH that(2-5) cd by simp
  qed
  from click.hyps(2) show ?case
  proof (cases rule: click_cases)
    case measure
    from measure(3) show ?thesis by (rule eg) simp
  next
    case pass
    from pass(3) show ?thesis by (rule nt) simp_all
  next
    case (reshuffle choice c)
    from reshuffle(4) show ?thesis by (rule nt) simp_all
  qed
qed

subsection \<open>Rounds and the measure level\<close>

lemma end_game_fields:
  assumes "end_game e g = Inr g'"
  shows "game_over g'" "action_box g' = None" "measure_level g' = measure_level g"
    "current_round g' = current_round g" "current_player_index g' = current_player_index g"
    "player_turn_order g' = player_turn_order g" "initial_cards g' = initial_cards g"
  by (subst end_game_frame[OF assms], simp)+

lemma click_game_over_mono:
  assumes "on_action_button_clicked e b g = Inr g'" and "game_over g"
  shows "game_over g'"
proof -
  have nt: "game_over g'" if "next_turn e g0 = Inr g'" "game_over g0" for g0
    using next_turn_cases[OF that(1)] that(2) by (auto dest: end_game_fields(1))
  from assms(1) show ?thesis
  proof (cases rule: click_cases)
    case measure
    then show ?thesis by (auto dest: end_game_fields(1))
  next
    case pass
    from pass(3) assms(2) show ?thesis by (rule nt)
  next
    case (reshuffle choice c)
    from reshuffle(4) show ?thesis by (rule nt) (simp add: assms(2))
  qed
qed

lemma clicks_game_over_mono:
  "clicks acts g = Inr g' \<Longrightarrow> game_over g \<Longrightarrow> game_over g'"
proof (induction acts arbitrary: g)
  case Nil
  then show ?case by simp
next
  case (Cons a acts)
  obtain e b where a: "a = (e, b)" by (cases a)
  from Cons.prems(1) obtain g1 where
    g1: "on_action_button_clicked e b g = Inr g1" "clicks acts g1 = Inr g'"
    unfolding a by (auto simp: bind_result_def split: sum.splits)
  from click_game_over_mono[OF g1(1) Cons.prems(2)] Cons.IH[OF g1(2)] show ?case by blast
qed

lemma start_game_active: "start_game e g0 = Inr g \<Longrightarrow> active_turn 0 g"
  by (auto dest!: start_game_Inr simp: active_turn_def determine_turn_order_def)

lemma next_turn_active:
  assumes "next_turn e g0 = Inr g'" and "active_turn k g0"
  shows "(k < 3 \<and> active_turn (Suc k) g' \<and> measure_level g' = measure_level g0)
       \<or> (k = 3 \<and> game_over g' \<and> measure_level g' = 3)"
  using next_turn_cases[OF assms(1)]
proof (elim disjE conjE exE)
  fix ab
  assume a: "Suc (current_player_index g0) < length (player_turn_order g0)"
    "g' = g0\<lparr>current_player_index := Suc (current_player_index g0), action_box := ab\<rparr>"
  then have "k mod 2 = 0" using assms(2) by (auto simp: active_turn_def)
  then show ?thesis using a assms(2) by (auto simp: active_turn_def)
next
  assume a: "\<not> Suc (current_player_index g0) < length (player_turn_order g0)"
    "2 \<le> current_round g0"
    "end_game e (g0\<lparr>current_player_index := Suc (current_player_index g0),
        current_round := current_round g0 + 1, measure_level := 3\<rparr>) = Inr g'"
  have "k = 3" using a(1,2) assms(2) by (auto simp: active_turn_def split: if_splits) presburger
  then show ?thesis using end_game_fields(1,3)[OF a(3)] by simp
next
  fix ab
  assume a: "\<not> Suc (current_player_index g0) < length (player_turn_order g0)"
    "current_round g0 < 2"
    "g' = g0\<lparr>current_player_index := 0, current_round := current_round g0 + 1,
        player_turn_order := determine_turn_order (coin e), action_box := ab\<rparr>"
  have "k = 1" using a(1,2) assms(2) by (auto simp: active_turn_def split: if_splits)
  then show ?thesis using a(3) assms(2)
    by (auto simp: active_turn_def determine_turn_order_def)
qed

lemma click_active:
  assumes "on_action_button_clicked e b g = Inr g'" and "active_turn k g"
  shows "(b = Measure \<and> game_over g' \<and> measure_level g' = current_round g + 1)
       \<or> (b \<noteq> Measure \<and> k < 3 \<and> active_turn (Suc k) g' \<and> measure_level g' = measure_level g)
       \<or> (b \<noteq> Measure \<and> k = 3 \<and> game_over g' \<and> measure_level g' = 3)"
  using assms(1)
proof (cases rule: click_cases)
  case measure
  then show ?thesis using end_game_fields(1,3)[OF measure(3)] by simp
next
  case pass
  from next_turn_active[OF pass(3) assms(2)] pass(1) show ?thesis by auto
next
  case (reshuffle choice c)
  have "active_turn k (g\<lparr>qc := Some (c @ map H_gate
          (if choice = Choice1
           then qslice (if player_turn_order g ! current_player_index g = 1 then player1_q else player2_q) 3 6
           else qslice (if player_turn_order g ! current_player_index g = 1 then player1_q else player2_q) 0 3)
          @ [Barrier])\<rparr>)"
    using assms(2) by (simp add: active_turn_def)
  from next_turn_active[OF reshuffle(4) this] reshuffle(1) show ?thesis by auto
qed

lemma clicks_active:
  "active_turn k g \<Longrightarrow> clicks acts g = Inr gp \<Longrightarrow> \<not> game_over gp
     \<Longrightarrow> active_turn (k + length acts) gp"
proof (induction acts arbitrary: g k)
  case Nil
  then show ?case by simp
next
  case (Cons a acts)
  obtain e b where a: "a = (e, b)" by (cases a)
  from Cons.prems(2) obtain g1 where
    g1: "on_action_button_clicked e b g = Inr g1" "clicks acts g1 = Inr gp"
    unfolding a by (auto simp: bind_result_def split: sum.splits)
  have "\<not> game_over g1" using clicks_game_over_mono[OF g1(2)] Cons.prems(3) by blast
  with click_active[OF g1(1) Cons.prems(1)] have "active_turn (Suc k) g1" by blast
  from Cons.IH[OF this g1(2) Cons.prems(3)] show ?case by simp
qed

text \<open>
  Claim C3. Take a session from \<^verbatim>\<open>Start Game\<close> through the clicks \<open>acts\<close>, none of which
  has ended the game, and let the next click \<open>b\<close> end it. The round is 1 during the first
  two turns and 2 afterwards. \<^verbatim>\<open>Measure\<close> in round \<open>r\<close> leaves measure level \<open>r + 1\<close>; any
  other click ends the game only as the fourth turn (the second turn of round 2) and leaves
  measure level 3. So the level is 2 exactly when \<^verbatim>\<open>Measure\<close> was pressed in round 1.
\<close>

theorem measure_level_of_play:
  assumes "start_game e0 g0 = Inr g"
    and "clicks acts g = Inr gp" and "\<not> game_over gp"
    and "on_action_button_clicked e b gp = Inr g'" and "game_over g'"
  shows "current_round gp = (if length acts < 2 then 1 else 2)
     \<and> measure_level g' = (if b = Measure then current_round gp + 1 else 3)
     \<and> (measure_level g' = 2 \<longleftrightarrow> b = Measure \<and> current_round gp = 1)
     \<and> (b \<noteq> Measure \<longrightarrow> length acts = 3)"
proof -
  have act: "active_turn (length acts) gp"
    using clicks_active[OF start_game_active[OF assms(1)] assms(2,3)] by simp
  then have r: "current_round gp = (if length acts < 2 then 1 else 2)"
    by (simp add: active_turn_def)
  from click_active[OF assms(4) act] assms(5)
  have "(b = Measure \<and> measure_level g' = current_round gp + 1)
      \<or> (b \<noteq> Measure \<and> length acts = 3 \<and> measure_level g' = 3)"
    by (auto simp: active_turn_def)
  then show ?thesis using r by auto
qed

subsection \<open>The sample session\<close>

lemma generate_random_card_simp [simp]: "generate_random_card r = 1 + int (r mod 8)"
  by (simp add: generate_random_card_def MIN_CARD_VALUE_def MAX_CARD_VALUE_def)

lemma scenario_start: "start_game scenario_env init_game = Inr scenario_started"
  by (simp add: start_game_def scenario_env_def init_game_def scenario_started_def
      update_turn_highlight_def determine_turn_order_def)

lemma scenario_pass_pass:
  "clicks [(scenario_env, Pass), (scenario_env, Pass)] scenario_started = Inr scenario_round2"
  by (simp add: bind_result_def on_action_button_clicked_def next_turn_def scenario_env_def
      scenario_started_def scenario_round2_def update_turn_highlight_def determine_turn_order_def)

lemmas scenario_eval =
  on_action_button_clicked_def end_game_def bind_result_def update_turn_highlight_def
  add_measurements_to_circuit_def process_quantum_results_def first_quantum_cards_def
  second_quantum_cards_def quantum_card_def get_card_value_from_binary_def int_base2_def
  append_card_def score_hands_def dealer_final_turn_def DEALER_STANDS_THRESHOLD_def
  num_qubits_def NUM_QUANTUM_CARDS_PER_PLAYER_def scenario_env_def

lemma scenario_measure_round2:
  "on_action_button_clicked scenario_env Measure scenario_round2 = Inr scenario_ended3"
  by (simp add: scenario_eval scenario_round2_def scenario_started_def scenario_ended3_def
      dealer_final_turn_loop.simps)

lemma scenario_measure_round1:
  "on_action_button_clicked scenario_env Measure scenario_started = Inr scenario_ended2"
  by (simp add: scenario_eval scenario_started_def scenario_ended2_def
      dealer_final_turn_loop.simps)

subsection \<open>The Dealer's final turn\<close>

lemma drawn_cards_range: "c \<in> set (drawn_cards r k n) \<Longrightarrow> 1 \<le> c \<and> c \<le> 8"
  using generate_random_card_range by (auto simp: drawn_cards_def simp del: generate_random_card_simp)

lemma generate_random_card_residue:
  assumes "1 \<le> v" "v \<le> 8"
  shows "{x. x < 8 * N \<and> generate_random_card x = v} = (\<lambda>j. 8 * j + nat (v - 1)) ` {0..<N}"
proof (intro set_eqI iffI)
  fix x
  assume "x \<in> {x. x < 8 * N \<and> generate_random_card x = v}"
  then have x: "x < 8 * N" "x mod 8 = nat (v - 1)" by auto
  have "x = 8 * (x div 8) + nat (v - 1)" using x(2) by presburger
  moreover have "x div 8 \<in> {0..<N}" using x(1) by auto
  ultimately show "x \<in> (\<lambda>j. 8 * j + nat (v - 1)) ` {0..<N}" by (rule image_eqI)
next
  fix x
  assume "x \<in> (\<lambda>j. 8 * j + nat (v - 1)) ` {0..<N}"
  then obtain j where j: "j < N" "x = 8 * j + nat (v - 1)" by auto
  have "nat (v - 1) < 8" using assms by simp
  then have "x < 8 * N" "x mod 8 = nat (v - 1)" using j by auto
  then show "x \<in> {x. x < 8 * N \<and> generate_random_card x = v}" using assms by simp
qed

lemma generate_random_card_uniform:
  assumes "1 \<le> v" "v \<le> 8"
  shows "card {x. x < 8 * N \<and> generate_random_card x = v} = N"
proof -
  have "inj_on (\<lambda>j. 8 * j + nat (v - 1)) {0..<N}" by (simp add: inj_on_def)
  then show ?thesis
    unfolding generate_random_card_residue[OF assms] by (simp add: card_image)
qed

text \<open>
  Claim C5. Let the Dealer's score after the quantum cards be \<open>t\<close>. The Dealer's final turn
  returns, having drawn the classical cards \<open>drawn_cards r 0 n\<close> for some \<open>n\<close>: they are
  appended to the Dealer's hand in the order drawn and the Dealer's score becomes \<open>t\<close> plus
  their sum. Before each of the \<open>n\<close> draws the running total is below 14 and after the last
  one it is at least 14, so the Dealer draws as long as the total is below 14 and never
  after. No card is drawn exactly when the score is 14 or more at the start (14 itself
  included), and then the state is left as it is. Every card drawn is between 1 and 8, and
  the card is uniform in the random integer it is computed from: among the raw values below
  \<open>8 * N\<close>, each card value from 1 to 8 is produced by exactly \<open>N\<close> of them.
\<close>

theorem dealer_draws_below_threshold_only:
  assumes "map_of (player_scores g) ''Dealer'' = Some t"
    and "map_of (player_hands g) ''Dealer'' = Some hand"
  shows "\<exists>n g'. dealer_final_turn r g = Inr g'
      \<and> map_of (player_hands g') ''Dealer'' = Some (hand @ drawn_cards r 0 n)
      \<and> map_of (player_scores g') ''Dealer'' = Some (t + sum_list (drawn_cards r 0 n))
      \<and> (\<forall>m<n. t + sum_list (drawn_cards r 0 m) < 14)
      \<and> 14 \<le> t + sum_list (drawn_cards r 0 n)
      \<and> (n = 0 \<longleftrightarrow> 14 \<le> t)
      \<and> (n = 0 \<longrightarrow> g' = g)
      \<and> (\<forall>c \<in> set (drawn_cards r 0 n). 1 \<le> c \<and> c \<le> 8)
      \<and> (\<forall>v N. 1 \<le> v \<and> v \<le> 8 \<longrightarrow> card {x. x < 8 * N \<and> generate_random_card x = v} = N)"
proof -
  have f: "dealer_final_turn r g = dealer_final_turn_loop r 0 t g"
    using assms(1) by (simp add: dealer_final_turn_def)
  obtain n g' where n:
    "dealer_final_turn_loop r 0 t g = Inr g'"
    "map_of (player_hands g') ''Dealer'' = Some (hand @ drawn_cards r 0 n)"
    "n = 0 \<longrightarrow> g' = g"
    "0 < n \<longrightarrow> map_of (player_scores g') ''Dealer'' = Some (t + sum_list (drawn_cards r 0 n))"
    "14 \<le> t + sum_list (drawn_cards r 0 n)"
    "\<forall>m<n. t + sum_list (drawn_cards r 0 m) < 14"
    using dealer_loop_result[OF assms(2), of r 0 t]
    by (elim exE conjE) (rule that, assumption+)
  have z: "n = 0 \<longleftrightarrow> 14 \<le> t"
  proof
    assume "n = 0"
    then show "14 \<le> t" using n(5) by (simp add: drawn_cards_def)
  next
    assume t: "14 \<le> t"
    show "n = 0"
    proof (rule ccontr)
      assume "n \<noteq> 0"
      then have "0 < n" by simp
      with n(6) have "t + sum_list (drawn_cards r 0 0) < 14" by blast
      then show False using t by (simp add: drawn_cards_def)
    qed
  qed
  have s: "map_of (player_scores g') ''Dealer'' = Some (t + sum_list (drawn_cards r 0 n))"
  proof (cases "n = 0")
    case True
    then show ?thesis using n(3) assms(1) by (simp add: drawn_cards_def)
  next
    case False
    then show ?thesis using n(4) by simp
  qed
  have u: "\<forall>v N. 1 \<le> v \<and> v \<le> 8 \<longrightarrow> card {x. x < 8 * N \<and> generate_random_card x = v} = N"
    using generate_random_card_uniform by blast
  have c: "\<forall>c \<in> set (drawn_cards r 0 n). 1 \<le> c \<and> c \<le> 8"
    using drawn_cards_range by blast
  show ?thesis
    unfolding f
    using n(1) n(2) s n(6) n(5) z n(3) c u by (intro exI conjI)
qed

text \<open>
  The sample session ended in round 1: after the quantum cards the Dealer's score is
  6 + 2 = 8, the Dealer draws a 6 and stops at exactly 14. Started again at 14, the final
  turn draws nothing.
\<close>

theorem dealer_draws_below_threshold_only_witness:
  "map_of (player_scores scenario_measured2) ''Dealer'' = Some 8
   \<and> map_of (player_hands scenario_measured2) ''Dealer'' = Some [6, 2]
   \<and> dealer_final_turn (rng scenario_env) scenario_measured2 = Inr scenario_ended2
   \<and> map_of (player_hands scenario_ended2) ''Dealer'' = Some [6, 2, 6]
   \<and> map_of (player_scores scenario_ended2) ''Dealer'' = Some 14
   \<and> dealer_final_turn (rng scenario_env) scenario_ended2 = Inr scenario_ended2
   \<and> card {x. x < 8 * 1 \<and> generate_random_card x = 6} = 1
   \<and> (\<exists>n g'. dealer_final_turn (rng scenario_env) scenario_measured2 = Inr g'
      \<and> map_of (player_hands g') ''Dealer'' = Some ([6, 2] @ drawn_cards (rng scenario_env) 0 n)
      \<and> map_of (player_scores g') ''Dealer'' = Some (8 + sum_list (drawn_cards (rng scenario_env) 0 n))
      \<and> 14 \<le> 8 + sum_list (drawn_cards (rng scenario_env) 0 n)
      \<and> n \<noteq> 0)"
proof -
  have sc: "map_of (player_scores scenario_measured2) ''Dealer'' = Some 8"
    by (simp add: scenario_measured2_def)
  have h: "map_of (player_hands scenario_measured2) ''Dealer'' = Some [6, 2]"
    by (simp add: scenario_measured2_def)
  have l: "dealer_final_turn (rng scenario_env) scenario_measured2 = Inr scenario_ended2"
    by (simp add: dealer_final_turn_def dealer_final_turn_loop.simps scenario_measured2_def
        scenario_ended2_def scenario_env_def append_card_def DEALER_STANDS_THRESHOLD_def)
  have h2: "map_of (player_hands scenario_ended2) ''Dealer'' = Some [6, 2, 6]"
    by (simp add: scenario_ended2_def)
  have sc2: "map_of (player_scores scenario_ended2) ''Dealer'' = Some 14"
    by (simp add: scenario_ended2_def)
  have l2: "dealer_final_turn (rng scenario_env) scenario_ended2 = Inr scenario_ended2"
    using sc2 by (simp add: dealer_final_turn_def dealer_final_turn_loop.simps
        DEALER_STANDS_THRESHOLD_def)
  note t = dealer_draws_below_threshold_only[OF sc h, of "rng scenario_env"]
  from t have u: "card {x. x < 8 * 1 \<and> generate_random_card x = 6} = 1"
    by (elim exE conjE) (drule spec[of _ 6], drule spec[of _ 1], simp)
  from t
  have e: "\<exists>n g'. dealer_final_turn (rng scenario_env) scenario_measured2 = Inr g'
      \<and> map_of (player_hands g') ''Dealer'' = Some ([6, 2] @ drawn_cards (rng scenario_env) 0 n)
      \<and> map_of (player_scores g') ''Dealer'' = Some (8 + sum_list (drawn_cards (rng scenario_env) 0 n))
      \<and> 14 \<le> 8 + sum_list (drawn_cards (rng scenario_env) 0 n)
      \<and> n \<noteq> 0"
    by (elim exE conjE) (intro exI conjI, assumption+, simp)
  from sc h l h2 sc2 l2 u e show ?thesis by (intro conjI)
qed

text \<open>
  Claim C7, as amended. The loop has no counter, but every card is at least
  \<open>MIN_CARD_VALUE = 1\<close>: for every sequence of random values the loop returns, after at most
  \<open>14 - t\<close> draws from the total \<open>t\<close>.
\<close>

theorem dealer_loop_draws_bounded:
  assumes "map_of (player_hands g) ''Dealer'' = Some hand"
  shows "\<exists>n g'. dealer_final_turn_loop r k t g = Inr g'
      \<and> map_of (player_hands g') ''Dealer'' = Some (hand @ drawn_cards r k n)
      \<and> int n \<le> max 0 (14 - t)"
  using dealer_loop_result[OF assms, of r k t] by blast

text \<open>
  The Dealer of the sample session at 8, fed the smallest card every time: the loop still
  returns, after at most 6 draws.
\<close>

theorem dealer_loop_draws_bounded_witness:
  "map_of (player_hands scenario_measured2) ''Dealer'' = Some [6, 2]
   \<and> (\<exists>n g'. dealer_final_turn_loop (\<lambda>k. 0) 0 8 scenario_measured2 = Inr g'
      \<and> map_of (player_hands g') ''Dealer'' = Some ([6, 2] @ drawn_cards (\<lambda>k. 0) 0 n)
      \<and> n \<le> 6)"
proof -
  have h: "map_of (player_hands scenario_measured2) ''Dealer'' = Some [6, 2]"
    by (simp add: scenario_measured2_def)
  from dealer_loop_draws_bounded[OF h, of "\<lambda>k. 0" 0 8]
  have "\<exists>n g'. dealer_final_turn_loop (\<lambda>k. 0) 0 8 scenario_measured2 = Inr g'
      \<and> map_of (player_hands g') ''Dealer'' = Some ([6, 2] @ drawn_cards (\<lambda>k. 0) 0 n)
      \<and> n \<le> 6"
    by (elim exE conjE) (intro exI conjI, assumption+, simp)
  with h show ?thesis by (intro conjI)
qed

text \<open>
  Claim C7 as stated says that the number of draws has no bound that holds for every
  sequence of drawn cards. It has one: from a total that is not negative, no sequence makes
  the Dealer draw more than 14 cards.
\<close>

theorem dealer_loop_uncapped_refuted:
  "\<not> (\<forall>N. \<exists>r t g hand g' hand'.
        0 \<le> t \<and> map_of (player_hands g) ''Dealer'' = Some hand
        \<and> dealer_final_turn_loop r 0 t g = Inr g'
        \<and> map_of (player_hands g') ''Dealer'' = Some hand'
        \<and> length hand + N < length hand')"
proof
  assume "\<forall>N. \<exists>r t g hand g' hand'.
        0 \<le> t \<and> map_of (player_hands g) ''Dealer'' = Some hand
        \<and> dealer_final_turn_loop r 0 t g = Inr g'
        \<and> map_of (player_hands g') ''Dealer'' = Some hand'
        \<and> length hand + N < length hand'"
  then obtain r t g hand g' hand' where c:
    "0 \<le> t" "map_of (player_hands g) ''Dealer'' = Some hand"
    "dealer_final_turn_loop r 0 t g = Inr g'"
    "map_of (player_hands g') ''Dealer'' = Some hand'"
    "length hand + 14 < length hand'"
    by blast
  obtain n g'' where n:
    "dealer_final_turn_loop r 0 t g = Inr g''"
    "map_of (player_hands g'') ''Dealer'' = Some (hand @ drawn_cards r 0 n)"
    "int n \<le> max 0 (14 - t)"
    using dealer_loop_result[OF c(2), of r 0 t]
    by (elim exE conjE) (rule that, assumption+)
  have "g'' = g'" using n(1) c(3) by simp
  then have "hand' = hand @ drawn_cards r 0 n" using n(2) c(4) by simp
  then have "length hand' = length hand + n" by (simp add: drawn_cards_def)
  moreover have "n \<le> 14" using n(3) c(1) by simp
  ultimately show False using c(5) by simp
qed

text \<open>
  Claim C9. In every state of a session in which the game is over, the Dealer's score is at
  least 14 and at most 21.
\<close>

theorem dealer_final_score_range:
  assumes "reachable g" and "game_over g"
  shows "\<exists>s. map_of (player_scores g) ''Dealer'' = Some s \<and> 14 \<le> s \<and> s \<le> 21"
  using reachable_invariant[OF assms(1)] assms(2) by blast

lemma scenario_ended3_reachable: "reachable scenario_ended3"
proof -
  have "reachable scenario_started"
    using reachable.start[OF reachable.init scenario_start] .
  then have "reachable (scenario_started\<lparr>current_player_index := 1, action_box := Some 2\<rparr>)"
    by (rule reachable.click[where e = scenario_env and b = Pass])
      (simp add: on_action_button_clicked_def next_turn_def scenario_started_def
        update_turn_highlight_def)
  then have "reachable scenario_round2"
    by (rule reachable.click[where e = scenario_env and b = Pass])
      (simp add: on_action_button_clicked_def next_turn_def scenario_started_def scenario_round2_def
        scenario_env_def update_turn_highlight_def determine_turn_order_def)
  then show ?thesis
    by (rule reachable.click[OF _ scenario_measure_round2])
qed

theorem dealer_final_score_range_witness:
  "reachable scenario_ended3 \<and> game_over scenario_ended3
   \<and> (\<exists>s. map_of (player_scores scenario_ended3) ''Dealer'' = Some s \<and> 14 \<le> s \<and> s \<le> 21)"
proof -
  have g: "game_over scenario_ended3" by (simp add: scenario_ended3_def)
  from scenario_ended3_reachable g dealer_final_score_range[OF scenario_ended3_reachable g]
  show ?thesis by (intro conjI)
qed

text \<open>
  The scenario of the specification: both players pass round 1 and Player 1 measures in
  round 2, which gives measure level 3. Had Player 1 measured at once, in round 1, the
  level would be 2.
\<close>

theorem measure_level_of_play_witness:
  "start_game scenario_env init_game = Inr scenario_started
   \<and> clicks [(scenario_env, Pass), (scenario_env, Pass)] scenario_started = Inr scenario_round2
   \<and> \<not> game_over scenario_round2
   \<and> on_action_button_clicked scenario_env Measure scenario_round2 = Inr scenario_ended3
   \<and> game_over scenario_ended3
   \<and> current_round scenario_round2 = 2
   \<and> measure_level scenario_ended3 = 3
   \<and> clicks [] scenario_started = Inr scenario_started
   \<and> \<not> game_over scenario_started
   \<and> on_action_button_clicked scenario_env Measure scenario_started = Inr scenario_ended2
   \<and> game_over scenario_ended2
   \<and> current_round scenario_started = 1
   \<and> measure_level scenario_ended2 = 2"
proof -
  have a: "\<not> game_over scenario_round2"
    by (simp add: scenario_round2_def scenario_started_def)
  have b: "game_over scenario_ended3" by (simp add: scenario_ended3_def)
  from measure_level_of_play[OF scenario_start scenario_pass_pass a scenario_measure_round2 b]
  have r3: "current_round scenario_round2 = 2 \<and> measure_level scenario_ended3 = 3" by simp
  have c: "clicks [] scenario_started = Inr scenario_started" by simp
  have d: "\<not> game_over scenario_started" by (simp add: scenario_started_def)
  have e: "game_over scenario_ended2" by (simp add: scenario_ended2_def)
  from measure_level_of_play[OF scenario_start c d scenario_measure_round1 e]
  have r2: "current_round scenario_started = 1 \<and> measure_level scenario_ended2 = 2" by simp
  from scenario_start scenario_pass_pass a scenario_measure_round2 b r3 c d
    scenario_measure_round1 e r2
  show ?thesis by (intro conjI) simp_all
qed

subsection \<open>Passing, and clicks after the end\<close>

text \<open>
  Claim C10. A \<^verbatim>\<open>Pass\<close> that does not complete round 2 leaves the initial cards, the
  hands, the scores, the measure level, the circuit and the game-over flag as they are.
  While the turn order has a player left it only moves the index on; otherwise it starts
  the next round: index 0, the round number one higher, and the turn order tossed anew.
\<close>

theorem pass_frame:
  assumes "on_action_button_clicked e Pass g = Inr g'"
    and "\<not> (length (player_turn_order g) \<le> current_player_index g + 1 \<and> 2 \<le> current_round g)"
  shows "initial_cards g' = initial_cards g \<and> player_hands g' = player_hands g
     \<and> player_scores g' = player_scores g \<and> measure_level g' = measure_level g
     \<and> qc g' = qc g \<and> game_over g' = game_over g
     \<and> (if current_player_index g + 1 < length (player_turn_order g)
        then current_player_index g' = current_player_index g + 1
           \<and> current_round g' = current_round g
           \<and> player_turn_order g' = player_turn_order g
        else current_player_index g' = 0
           \<and> current_round g' = current_round g + 1
           \<and> player_turn_order g' = determine_turn_order (coin e))"
proof -
  have "next_turn e g = Inr g'"
    using assms(1) by (rule click_cases) simp_all
  from next_turn_cases[OF this] assms(2) show ?thesis
    by (elim disjE conjE exE) auto
qed

theorem pass_frame_witness:
  "on_action_button_clicked scenario_env Pass
      (scenario_started\<lparr>current_player_index := 1, action_box := Some 2\<rparr>) = Inr scenario_round2
   \<and> \<not> (length (player_turn_order (scenario_started\<lparr>current_player_index := 1, action_box := Some 2\<rparr>))
          \<le> current_player_index (scenario_started\<lparr>current_player_index := 1, action_box := Some 2\<rparr>) + 1
        \<and> 2 \<le> current_round (scenario_started\<lparr>current_player_index := 1, action_box := Some 2\<rparr>))
   \<and> initial_cards scenario_round2 = initial_cards scenario_started
   \<and> player_hands scenario_round2 = player_hands scenario_started
   \<and> player_scores scenario_round2 = player_scores scenario_started
   \<and> measure_level scenario_round2 = measure_level scenario_started
   \<and> qc scenario_round2 = qc scenario_started
   \<and> game_over scenario_round2 = game_over scenario_started
   \<and> current_player_index scenario_round2 = 0
   \<and> current_round scenario_round2 = 2
   \<and> player_turn_order scenario_round2 = [1, 2]"
proof -
  let ?g = "scenario_started\<lparr>current_player_index := 1, action_box := Some 2\<rparr>"
  have a: "on_action_button_clicked scenario_env Pass ?g = Inr scenario_round2"
    by (simp add: on_action_button_clicked_def next_turn_def scenario_started_def scenario_round2_def
        scenario_env_def update_turn_highlight_def determine_turn_order_def)
  have b: "\<not> (length (player_turn_order ?g) \<le> current_player_index ?g + 1 \<and> 2 \<le> current_round ?g)"
    by (simp add: scenario_started_def)
  from pass_frame[OF a b] a b show ?thesis
    by (simp add: scenario_started_def scenario_env_def determine_turn_order_def)
qed

lemma reachable_ended_invariant:
  "reachable g \<Longrightarrow>
     (game_over g \<longrightarrow> action_box g = None)
     \<and> (3 \<le> current_round g \<longrightarrow> length (player_turn_order g) \<le> current_player_index g)"
proof (induction rule: reachable.induct)
  case init
  show ?case by (simp add: init_game_def)
next
  case (start g e g')
  from start_game_Inr[OF start.hyps(2)] show ?case by auto
next
  case (click g e b g')
  have idx: "current_player_index g < length (player_turn_order g)"
    using click.hyps(2) by (rule click_cases)
  with click.IH have r: "current_round g < 3" by auto
  have nt: "?case" if "next_turn e g0 = Inr g'" "current_round g0 = current_round g"
    "current_player_index g0 = current_player_index g" "player_turn_order g0 = player_turn_order g"
    "game_over g0 = game_over g" "action_box g0 = action_box g" for g0
    using next_turn_cases[OF that(1)]
  proof (elim disjE conjE exE)
    fix ab assume a: "g' = g0\<lparr>current_player_index := Suc (current_player_index g0), action_box := ab\<rparr>"
      "game_over g0 \<longrightarrow> ab = None"
    then show ?thesis using r that(2) by simp
  next
    assume a: "\<not> Suc (current_player_index g0) < length (player_turn_order g0)"
      "end_game e (g0\<lparr>current_player_index := Suc (current_player_index g0),
                           current_round := current_round g0 + 1, measure_level := 3\<rparr>) = Inr g'"
    from end_game_fields(2,4,5,6)[OF a(2)] a(1) show ?thesis by simp
  next
    fix ab assume a: "current_round g0 < 2" "g' = g0\<lparr>current_player_index := 0, current_round := current_round g0 + 1,
                           player_turn_order := determine_turn_order (coin e), action_box := ab\<rparr>"
      "game_over g0 \<longrightarrow> ab = None"
    then show ?thesis by simp
  qed
  from click.hyps(2) show ?case
  proof (cases rule: click_cases)
    case measure
    from end_game_fields(2,4)[OF measure(3)] r show ?thesis by simp
  next
    case pass
    from pass(3) show ?thesis by (rule nt) simp_all
  next
    case (reshuffle choice c)
    from reshuffle(4) show ?thesis by (rule nt) simp_all
  qed
qed

text \<open>
  Claim C8, as amended. In every state of a session in which the game is over, the action
  box is in neither player's panel. The handler does not look at the game-over flag: when
  the game ended because both players passed round 2 (the round counter is 3), every click
  that still reaches it raises \<open>IndexError\<close> at its first statement, before anything is
  assigned.
\<close>

theorem ended_session_controls:
  assumes "reachable g" and "game_over g"
  shows "action_box g = None
     \<and> (current_round g = 3 \<longrightarrow> on_action_button_clicked e b g = Inl IndexError)"
  using reachable_ended_invariant[OF assms(1)] assms(2)
  by (auto simp: on_action_button_clicked_def)

lemma scenario_ended2_reachable: "reachable scenario_ended2"
  using reachable.click[OF reachable.start[OF reachable.init scenario_start] scenario_measure_round1] .

lemma scenario_pass_out:
  "clicks [(scenario_env, Pass), (scenario_env, Pass)] scenario_round2 = Inr scenario_passed_out"
  by (simp add: scenario_eval next_turn_def scenario_round2_def scenario_started_def
      scenario_passed_out_def scenario_ended3_def dealer_final_turn_loop.simps)

lemma clicks_reachable: "reachable g \<Longrightarrow> clicks acts g = Inr g' \<Longrightarrow> reachable g'"
proof (induction acts arbitrary: g)
  case Nil
  then show ?case by simp
next
  case (Cons a acts)
  obtain e b where a: "a = (e, b)" by (cases a)
  from Cons.prems(2) obtain g1 where
    g1: "on_action_button_clicked e b g = Inr g1" "clicks acts g1 = Inr g'"
    unfolding a by (auto simp: bind_result_def split: sum.splits)
  from Cons.IH[OF reachable.click[OF Cons.prems(1) g1(1)] g1(2)] show ?case .
qed

lemma scenario_passed_out_reachable: "reachable scenario_passed_out"
  using clicks_reachable[OF clicks_reachable[OF reachable.start[OF reachable.init scenario_start]
    scenario_pass_pass] scenario_pass_out] .

text \<open>The sample session after four passes: no action box, and a further click raises.\<close>

theorem ended_session_controls_witness:
  "reachable scenario_passed_out \<and> game_over scenario_passed_out
   \<and> action_box scenario_passed_out = None
   \<and> current_round scenario_passed_out = 3
   \<and> on_action_button_clicked scenario_env Measure scenario_passed_out = Inl IndexError"
proof -
  have g: "game_over scenario_passed_out"
    by (simp add: scenario_passed_out_def scenario_ended3_def)
  have r: "current_round scenario_passed_out = 3" by (simp add: scenario_passed_out_def)
  from ended_session_controls[OF scenario_passed_out_reachable g, of scenario_env Measure] r
    scenario_passed_out_reachable g
  show ?thesis by simp
qed

text \<open>
  Claim C8 as stated fails after an end by \<^verbatim>\<open>Measure\<close>: in the sample session ended in
  round 1, a \<^verbatim>\<open>Pass\<close> that reaches the handler is carried out and moves the turn index from
  0 to 1.
\<close>

theorem action_after_end_changes_state:
  "reachable scenario_ended2 \<and> game_over scenario_ended2
   \<and> on_action_button_clicked scenario_env Pass scenario_ended2
       = Inr (scenario_ended2\<lparr>current_player_index := 1\<rparr>)
   \<and> current_player_index (scenario_ended2\<lparr>current_player_index := 1\<rparr>)
       \<noteq> current_player_index scenario_ended2"
  using scenario_ended2_reachable
  by (simp add: on_action_button_clicked_def next_turn_def scenario_ended2_def
      update_turn_highlight_def)

subsection \<open>The verdict and the value of a bit group\<close>

lemma str_nat_digit: "n < 10 \<Longrightarrow> str_nat n = [''0123456789'' ! n]"
  by (subst str_nat.simps) simp

lemma str_nat_more: "\<not> n < 10 \<Longrightarrow> str_nat n = str_nat (n div 10) @ [''0123456789'' ! (n mod 10)]"
  by (subst str_nat.simps) simp

lemma max_list_Max: "xs \<noteq> [] \<Longrightarrow> max_list xs = Max (set xs)"
  using Max.set_eq_fold[of "hd xs" "tl xs"] by (cases xs) (simp_all add: max_list_def)

lemma set_valid_scores:
  "set (valid_scores scores) = {(p, s). (p, s) \<in> set scores \<and> s \<le> 17}"
  by (auto simp: valid_scores_def TARGET_SCORE_def)

lemma busted_message_filter:
  "busted_message scores =
     concat (map (\<lambda>(p, s). p @ '' BUSTED with '' @ str_int s @ ''! '')
       (filter (\<lambda>(p, s). 17 < s) scores))"
  unfolding busted_message_def
  by (induction scores) (auto simp: TARGET_SCORE_def)

lemma max_valid_score:
  assumes "valid_scores scores \<noteq> []"
  shows "max_list (map snd (valid_scores scores)) = Max {s. \<exists>p. (p, s) \<in> set scores \<and> s \<le> 17}"
proof -
  have "set (map snd (valid_scores scores)) = {s. \<exists>p. (p, s) \<in> set scores \<and> s \<le> 17}"
    by (auto simp: set_valid_scores image_iff)
  then show ?thesis using max_list_Max[of "map snd (valid_scores scores)"] assms by simp
qed

lemma set_winners:
  assumes "valid_scores scores \<noteq> []"
  shows "set (winners scores) =
     {p. \<exists>s. (p, s) \<in> set scores \<and> s \<le> 17 \<and> (\<forall>(q, t) \<in> set scores. t \<le> 17 \<longrightarrow> t \<le> s)}"
    and "winners scores \<noteq> []"
proof -
  let ?V = "{s. \<exists>p. (p, s) \<in> set scores \<and> s \<le> 17}"
  let ?M = "Max ?V"
  have fin: "finite ?V"
  proof -
    have "?V \<subseteq> snd ` set scores" by force
    then show ?thesis by (rule finite_subset) simp
  qed
  have ne: "?V \<noteq> {}"
  proof -
    from assms obtain p s where "(p, s) \<in> set (valid_scores scores)"
      by (cases "valid_scores scores") auto
    then show ?thesis by (auto simp: set_valid_scores)
  qed
  have w: "winners scores = map fst (filter (\<lambda>(p, s). s = ?M) (valid_scores scores))"
    by (simp add: winners_def max_valid_score[OF assms])
  have top: "s = ?M \<longleftrightarrow> (\<forall>(q, t) \<in> set scores. t \<le> 17 \<longrightarrow> t \<le> s)"
    if "(p, s) \<in> set scores" "s \<le> 17" for p s
  proof
    assume "s = ?M"
    then show "\<forall>(q, t) \<in> set scores. t \<le> 17 \<longrightarrow> t \<le> s"
      using Max_ge[OF fin] by auto
  next
    assume a: "\<forall>(q, t) \<in> set scores. t \<le> 17 \<longrightarrow> t \<le> s"
    have "s \<in> ?V" using that by auto
    moreover have "\<And>t. t \<in> ?V \<Longrightarrow> t \<le> s" using a by auto
    ultimately show "s = ?M" using fin by (intro Max_eqI[symmetric]) auto
  qed
  show "set (winners scores) =
     {p. \<exists>s. (p, s) \<in> set scores \<and> s \<le> 17 \<and> (\<forall>(q, t) \<in> set scores. t \<le> 17 \<longrightarrow> t \<le> s)}"
    unfolding w using top by (auto simp: set_valid_scores image_iff) blast+
  have "?M \<in> ?V" using Max_in[OF fin ne] .
  then obtain p where "(p, ?M) \<in> set scores" "?M \<le> 17" by blast
  then have "p \<in> set (winners scores)" unfolding w by (auto simp: set_valid_scores image_iff)
  then show "winners scores \<noteq> []" by auto
qed

text \<open>
  Claim C6. \<^verbatim>\<open>valid_scores\<close> holds exactly the participants whose score is at most 17, and
  the message names as busted exactly the others. The winners are the participants that
  are not busted and whose score no other such participant exceeds. When everybody is
  busted the message ends with the house winning; when there are several winners it is a
  tie that lists all of them; a single winner is congratulated.
\<close>

theorem final_summary_verdict:
  "set (valid_scores scores) = {(p, s). (p, s) \<in> set scores \<and> s \<le> 17}
   \<and> busted_message scores =
       concat (map (\<lambda>(p, s). p @ '' BUSTED with '' @ str_int s @ ''! '')
         (filter (\<lambda>(p, s). 17 < s) scores))
   \<and> (valid_scores scores \<noteq> [] \<longrightarrow>
        winners scores \<noteq> []
        \<and> set (winners scores) =
          {p. \<exists>s. (p, s) \<in> set scores \<and> s \<le> 17 \<and> (\<forall>(q, t) \<in> set scores. t \<le> 17 \<longrightarrow> t \<le> s)})
   \<and> (valid_scores scores = [] \<longrightarrow>
        generate_final_summary scores =
          busted_message scores @ ''Everyone busted! The house wins.'')
   \<and> (valid_scores scores \<noteq> [] \<and> 1 < length (winners scores) \<longrightarrow>
        generate_final_summary scores =
          busted_message scores @ ''It's a TIE between '' @ join '', '' (winners scores)
            @ '' with '' @ str_int (Max {s. \<exists>p. (p, s) \<in> set scores \<and> s \<le> 17}) @ ''!'')
   \<and> (valid_scores scores \<noteq> [] \<and> length (winners scores) = 1 \<longrightarrow>
        generate_final_summary scores =
          busted_message scores @ ''CONGRATULATIONS! '' @ hd (winners scores)
            @ '' wins with a score of ''
            @ str_int (Max {s. \<exists>p. (p, s) \<in> set scores \<and> s \<le> 17}) @ ''!'')"
proof (intro conjI impI)
  show "set (valid_scores scores) = {(p, s). (p, s) \<in> set scores \<and> s \<le> 17}"
    by (rule set_valid_scores)
  show "busted_message scores =
       concat (map (\<lambda>(p, s). p @ '' BUSTED with '' @ str_int s @ ''! '')
         (filter (\<lambda>(p, s). 17 < s) scores))"
    by (rule busted_message_filter)
next
  assume "valid_scores scores \<noteq> []"
  then show "winners scores \<noteq> []"
    and "set (winners scores) =
          {p. \<exists>s. (p, s) \<in> set scores \<and> s \<le> 17 \<and> (\<forall>(q, t) \<in> set scores. t \<le> 17 \<longrightarrow> t \<le> s)}"
    by (rule set_winners)+
next
  assume "valid_scores scores = []"
  then show "generate_final_summary scores =
          busted_message scores @ ''Everyone busted! The house wins.''"
    by (simp add: generate_final_summary_def)
next
  assume "valid_scores scores \<noteq> [] \<and> 1 < length (winners scores)"
  then show "generate_final_summary scores =
          busted_message scores @ ''It's a TIE between '' @ join '', '' (winners scores)
            @ '' with '' @ str_int (Max {s. \<exists>p. (p, s) \<in> set scores \<and> s \<le> 17}) @ ''!''"
    by (simp add: generate_final_summary_def max_valid_score)
next
  assume "valid_scores scores \<noteq> [] \<and> length (winners scores) = 1"
  then show "generate_final_summary scores =
          busted_message scores @ ''CONGRATULATIONS! '' @ hd (winners scores)
            @ '' wins with a score of ''
            @ str_int (Max {s. \<exists>p. (p, s) \<in> set scores \<and> s \<le> 17}) @ ''!''"
    by (simp add: generate_final_summary_def max_valid_score)
qed

text \<open>The two scenarios of the specification: everybody busts, and an exact tie at 16.\<close>

theorem final_summary_verdict_witness:
  "valid_scores [(''Player 1'', 19), (''Player 2'', 22), (''Dealer'', 18)] = []
   \<and> generate_final_summary [(''Player 1'', 19), (''Player 2'', 22), (''Dealer'', 18)] =
       ''Player 1 BUSTED with 19! Player 2 BUSTED with 22! Dealer BUSTED with 18! Everyone busted! The house wins.''
   \<and> winners [(''Player 1'', 16), (''Player 2'', 16), (''Dealer'', 20)] = [''Player 1'', ''Player 2'']
   \<and> generate_final_summary [(''Player 1'', 16), (''Player 2'', 16), (''Dealer'', 20)] =
       ''Dealer BUSTED with 20! It's a TIE between Player 1, Player 2 with 16!''"
proof -
  let ?bust = "[(''Player 1'', 19), (''Player 2'', 22), (''Dealer'', 18)] :: (string \<times> int) list"
  let ?tie = "[(''Player 1'', 16), (''Player 2'', 16), (''Dealer'', 20)] :: (string \<times> int) list"
  have v1: "valid_scores ?bust = []" by (simp add: valid_scores_def TARGET_SCORE_def)
  have v2: "valid_scores ?tie \<noteq> []" by (simp add: valid_scores_def TARGET_SCORE_def)
  have w2: "winners ?tie = [''Player 1'', ''Player 2'']"
    by (simp add: winners_def valid_scores_def TARGET_SCORE_def max_list_def)
  have m2: "{s. \<exists>p. (p, s) \<in> set ?tie \<and> s \<le> 17} = {16}" by auto
  have "generate_final_summary ?bust = busted_message ?bust @ ''Everyone busted! The house wins.''"
    using final_summary_verdict[of ?bust] v1 by blast
  moreover have "generate_final_summary ?tie =
      busted_message ?tie @ ''It's a TIE between '' @ join '', '' (winners ?tie)
        @ '' with '' @ str_int (Max {s. \<exists>p. (p, s) \<in> set ?tie \<and> s \<le> 17}) @ ''!''"
    using final_summary_verdict[of ?tie] v2 w2 by simp
  ultimately show ?thesis using v1 w2 unfolding m2
    by (simp add: busted_message_def TARGET_SCORE_def str_int_def str_nat_digit str_nat_more)
qed

lemma int_base2_rev: "int_base2 (rev bs) = (\<Sum>i<length bs. (if bs ! i then 2 ^ i else 0))"
proof (induction bs)
  case Nil
  show ?case by (simp add: int_base2_def)
next
  case (Cons b bs)
  let ?f = "\<lambda>i. if (b # bs) ! i then 2 ^ i else (0 :: int)"
  have "(\<Sum>i<length (b # bs). ?f i) = ?f 0 + (\<Sum>i<length bs. ?f (Suc i))"
    unfolding length_Cons by (rule sum.lessThan_Suc_shift)
  also have "\<dots> = (if b then 1 else 0) + (\<Sum>i<length bs. (if bs ! i then 2 ^ Suc i else 0))"
    by simp
  also have "(\<Sum>i<length bs. (if bs ! i then 2 ^ Suc i else 0 :: int))
      = 2 * (\<Sum>i<length bs. (if bs ! i then 2 ^ i else 0))"
    by (simp add: sum_distrib_left if_distrib cong: if_cong)
  finally show ?case using Cons.IH by (simp add: int_base2_snoc)
qed

lemma get_card_value_slot_value:
  "bits \<noteq> [] \<Longrightarrow> get_card_value_from_binary (rev bits) = Inr (slot_value bits)"
  by (simp add: get_card_value_from_binary_def slot_value_def int_base2_rev)

lemma quantum_card_slot_value:
  assumes "lo < length res"
  shows "quantum_card res lo (lo + 3) = Inr (slot_value (take 3 (drop lo res)))"
proof -
  have "take 3 (drop lo res) \<noteq> []" using assms by simp
  from get_card_value_slot_value[OF this] show ?thesis by (simp add: quantum_card_def)
qed

lemma slot_value_range:
  assumes "lo < length res"
  shows "1 \<le> slot_value (take 3 (drop lo res)) \<and> slot_value (take 3 (drop lo res)) \<le> 8"
  using quantum_card_range[OF quantum_card_slot_value[OF assms]] .

lemma slot_value_three: "slot_value [a, b, c] = 4 * of_bool c + 2 * of_bool b + of_bool a + 1"
  by (simp add: slot_value_def lessThan_Suc numeral_3_eq_3)

subsection \<open>The hands at measure level 3\<close>

text \<open>
  Claim C4. Let the three registers have six bits each and let the game be at measure
  level 3. Every group of three bits that \<^verbatim>\<open>_process_quantum_results\<close> reads gives the card
  \<open>slot_value\<close> of the group, a value from 1 to 8. Both players get the hand of their
  initial card and their two quantum cards; the Dealer gets the second quantum card exactly
  when the initial card and the first quantum card sum to less than 14.
\<close>

theorem quantum_hands_at_level_3:
  assumes "length (p1_res m) = 6" and "length (p2_res m) = 6" and "length (dealer_res m) = 6"
    and "map_of (initial_cards g) ''Player 1'' = Some c1"
    and "map_of (initial_cards g) ''Player 2'' = Some c2"
    and "map_of (initial_cards g) ''Dealer'' = Some cd"
    and "measure_level g = 3"
  shows "(\<forall>res \<in> {p1_res m, p2_res m, dealer_res m}. \<forall>lo \<in> {0, 3}.
           quantum_card res lo (lo + 3) = Inr (slot_value (take 3 (drop lo res)))
           \<and> 1 \<le> slot_value (take 3 (drop lo res)) \<and> slot_value (take 3 (drop lo res)) \<le> 8)
     \<and> (\<exists>g'. process_quantum_results m g = Inr g'
          \<and> player_hands g' =
            [(''Player 1'', [c1, slot_value (take 3 (p1_res m)), slot_value (drop 3 (p1_res m))]),
             (''Player 2'', [c2, slot_value (take 3 (p2_res m)), slot_value (drop 3 (p2_res m))]),
             (''Dealer'',
                if cd + slot_value (take 3 (dealer_res m)) < 14
                then [cd, slot_value (take 3 (dealer_res m)), slot_value (drop 3 (dealer_res m))]
                else [cd, slot_value (take 3 (dealer_res m))])])"
proof -
  have q: "quantum_card res lo (lo + 3) = Inr (slot_value (take 3 (drop lo res)))
      \<and> 1 \<le> slot_value (take 3 (drop lo res)) \<and> slot_value (take 3 (drop lo res)) \<le> 8"
    if "length res = 6" "lo \<in> {0, 3}" for res :: "bool list" and lo :: nat
  proof -
    have "lo < length res" using that by auto
    from quantum_card_slot_value[OF this] slot_value_range[OF this] show ?thesis by simp
  qed
  have d3: "take 3 (drop 3 res) = drop 3 res" if "length res = 6" for res :: "bool list"
    using that by simp
  have q0: "quantum_card res 0 3 = Inr (slot_value (take 3 res))"
    and q3: "quantum_card res 3 6 = Inr (slot_value (drop 3 res))"
    if "length res = 6" for res
    using q[OF that, of 0] q[OF that, of 3] d3[OF that] by simp_all
  have first: "first_quantum_cards m [(''Player 1'', [c1]), (''Player 2'', [c2]), (''Dealer'', [cd])]
      = Inr [(''Player 1'', [c1, slot_value (take 3 (p1_res m))]),
             (''Player 2'', [c2, slot_value (take 3 (p2_res m))]),
             (''Dealer'', [cd, slot_value (take 3 (dealer_res m))])]"
    unfolding first_quantum_cards_Inr using q0 assms(1-3) by simp
  have second: "second_quantum_cards m
        [(''Player 1'', [c1, slot_value (take 3 (p1_res m))]),
         (''Player 2'', [c2, slot_value (take 3 (p2_res m))]),
         (''Dealer'', [cd, slot_value (take 3 (dealer_res m))])]
      = Inr [(''Player 1'', [c1, slot_value (take 3 (p1_res m)), slot_value (drop 3 (p1_res m))]),
             (''Player 2'', [c2, slot_value (take 3 (p2_res m)), slot_value (drop 3 (p2_res m))]),
             (''Dealer'',
                if cd + slot_value (take 3 (dealer_res m)) < 14
                then [cd, slot_value (take 3 (dealer_res m)), slot_value (drop 3 (dealer_res m))]
                else [cd, slot_value (take 3 (dealer_res m))])]"
    unfolding second_quantum_cards_Inr using q3 assms(1-3) by simp
  have "\<exists>g'. process_quantum_results m g = Inr g'
          \<and> player_hands g' =
            [(''Player 1'', [c1, slot_value (take 3 (p1_res m)), slot_value (drop 3 (p1_res m))]),
             (''Player 2'', [c2, slot_value (take 3 (p2_res m)), slot_value (drop 3 (p2_res m))]),
             (''Dealer'',
                if cd + slot_value (take 3 (dealer_res m)) < 14
                then [cd, slot_value (take 3 (dealer_res m)), slot_value (drop 3 (dealer_res m))]
                else [cd, slot_value (take 3 (dealer_res m))])]"
    using assms(4-7) first second by (simp add: process_quantum_results_def bind_result_def)
  moreover have "\<forall>res \<in> {p1_res m, p2_res m, dealer_res m}. \<forall>lo \<in> {0, 3}.
           quantum_card res lo (lo + 3) = Inr (slot_value (take 3 (drop lo res)))
           \<and> 1 \<le> slot_value (take 3 (drop lo res)) \<and> slot_value (take 3 (drop lo res)) \<le> 8"
    using q assms(1-3) by blast
  ultimately show ?thesis by blast
qed

text \<open>
  The sample session in round 2 with the registers \<^verbatim>\<open>011010 110010 100110\<close>: the hands are
  5, 4, 3 and 7, 7, 3, and the Dealer, at 6 + 2, takes the second quantum card 4.
\<close>

theorem quantum_hands_at_level_3_witness:
  "length (p1_res (mem scenario_env)) = 6 \<and> length (p2_res (mem scenario_env)) = 6
   \<and> length (dealer_res (mem scenario_env)) = 6
   \<and> map_of (initial_cards scenario_round2) ''Player 1'' = Some 5
   \<and> map_of (initial_cards scenario_round2) ''Player 2'' = Some 7
   \<and> map_of (initial_cards scenario_round2) ''Dealer'' = Some 6
   \<and> measure_level scenario_round2 = 3
   \<and> (\<exists>g'. process_quantum_results (mem scenario_env) scenario_round2 = Inr g'
        \<and> player_hands g' =
          [(''Player 1'', [5, 4, 3]), (''Player 2'', [7, 7, 3]), (''Dealer'', [6, 2, 4])])"
proof -
  have a: "length (p1_res (mem scenario_env)) = 6" "length (p2_res (mem scenario_env)) = 6"
    "length (dealer_res (mem scenario_env)) = 6"
    by (simp_all add: scenario_env_def)
  have b: "map_of (initial_cards scenario_round2) ''Player 1'' = Some 5"
    "map_of (initial_cards scenario_round2) ''Player 2'' = Some 7"
    "map_of (initial_cards scenario_round2) ''Dealer'' = Some 6"
    "measure_level scenario_round2 = 3"
    by (simp_all add: scenario_round2_def scenario_started_def)
  have v: "slot_value (take 3 (p1_res (mem scenario_env))) = 4"
    "slot_value (drop 3 (p1_res (mem scenario_env))) = 3"
    "slot_value (take 3 (p2_res (mem scenario_env))) = 7"
    "slot_value (drop 3 (p2_res (mem scenario_env))) = 3"
    "slot_value (take 3 (dealer_res (mem scenario_env))) = 2"
    "slot_value (drop 3 (dealer_res (mem scenario_env))) = 4"
    by (simp_all add: scenario_env_def slot_value_three)
  from quantum_hands_at_level_3[OF a b] a b show ?thesis
    unfolding v by simp
qed

subsection \<open>The prepared circuit\<close>

lemma pair_state_append: "pair_state p q (gs @ hs) = foldl (apply_gate p q) (pair_state p q gs) hs"
  by (simp add: pair_state_def)

lemma hadamard_first_twice: "hadamard_first (hadamard_first \<psi>) = \<psi>"
  by (rule ext, rule ext) (simp add: hadamard_first_def field_simps)

lemma hadamard_second_twice: "hadamard_second (hadamard_second \<psi>) = \<psi>"
  by (rule ext, rule ext) (simp add: hadamard_second_def field_simps)


lemma qslice_simps:
  "qslice r 0 3 = [(r, 0), (r, 1), (r, 2)]"
  "qslice r 3 6 = [(r, 3), (r, 4), (r, 5)]"
  "qslice r 0 6 = [(r, 0), (r, 1), (r, 2), (r, 3), (r, 4), (r, 5)]"
  by (simp_all add: qslice_def upt_conv_Cons)

lemma prepare_quantum_circuit_gates:
  "prepare_quantum_circuit ang =
     [Barrier,
      H_gate (dealer_q, 0), H_gate (dealer_q, 1), H_gate (dealer_q, 2),
      H_gate (dealer_q, 3), H_gate (dealer_q, 4), H_gate (dealer_q, 5), Barrier,
      H_gate (player1_q, 3), H_gate (player1_q, 4), H_gate (player1_q, 5),
      RY_gate (ang 0) (player1_q, 3), RY_gate (ang 1) (player1_q, 4), RY_gate (ang 2) (player1_q, 5),
      Barrier,
      H_gate (player1_q, 0), H_gate (player1_q, 1), H_gate (player1_q, 2),
      RY_gate (ang 3) (player1_q, 0), RY_gate (ang 4) (player1_q, 1), RY_gate (ang 5) (player1_q, 2),
      Barrier,
      CX_gate (player1_q, 3) (player2_q, 5), CX_gate (player1_q, 4) (player2_q, 4),
      CX_gate (player1_q, 5) (player2_q, 3), Barrier,
      CX_gate (player1_q, 0) (player2_q, 2), CX_gate (player1_q, 1) (player2_q, 1),
      CX_gate (player1_q, 2) (player2_q, 0), Barrier]"
  by (simp add: prepare_quantum_circuit_def prepare_player_card_with_rotations_def qslice_simps
      num_qubits_def NUM_QUANTUM_CARDS_PER_PLAYER_def upt_conv_Cons numeral_2_eq_2[symmetric])

lemma prepared_pair_state:
  assumes "i < 6"
  shows "pair_state (player1_q, i) (player2_q, entangled_with i) (prepare_quantum_circuit ang) =
     (\<lambda>a b. if a = b
        then (if a then sin (ang ((i + 3) mod 6) / 2) + cos (ang ((i + 3) mod 6) / 2)
              else cos (ang ((i + 3) mod 6) / 2) - sin (ang ((i + 3) mod 6) / 2)) / sqrt 2
        else 0)"
proof -
  have "i = 0 \<or> i = 1 \<or> i = 2 \<or> i = 3 \<or> i = 4 \<or> i = 5" using assms by auto
  then show ?thesis
    by (elim disjE; intro ext)
      (simp_all add: prepare_quantum_circuit_gates pair_state_def entangled_with_def ket00_def
        hadamard_first_def ry_first_def cx_first_second_def add_divide_distrib diff_divide_distrib)
qed

subsection \<open>Re-shuffles on an entangled pair\<close>

lemma hadamard_commute: "hadamard_first (hadamard_second \<psi>) = hadamard_second (hadamard_first \<psi>)"
  by (rule ext, rule ext) (simp add: hadamard_first_def hadamard_second_def field_simps)

lemma re_shuffle_on_pair:
  assumes "i < 6"
  shows "foldl (apply_gate (player1_q, i) (player2_q, entangled_with i)) \<psi> (re_shuffle pn ch) =
     (if i \<in> set (card_qubits ch)
      then (if pn = 1 then hadamard_first \<psi> else hadamard_second \<psi>)
      else \<psi>)"
proof -
  have "i = 0 \<or> i = 1 \<or> i = 2 \<or> i = 3 \<or> i = 4 \<or> i = 5" using assms by auto
  then show ?thesis
    by (cases ch; elim disjE)
      (simp_all add: re_shuffle_def qslice_simps entangled_with_def card_qubits_def)
qed

lemma re_shuffles_on_pair:
  assumes "i < 6" and "i \<in> set (card_qubits choice)"
  shows "foldl (apply_gate (player1_q, i) (player2_q, entangled_with i)) \<psi>
       (concat (map (\<lambda>(pn, ch). re_shuffle pn ch) rs)) =
     (if odd (length (filter (\<lambda>(pn, ch). pn = 1 \<and> ch = choice) rs))
      then (if odd (length (filter (\<lambda>(pn, ch). pn \<noteq> 1 \<and> ch = choice) rs))
            then hadamard_first (hadamard_second \<psi>) else hadamard_first \<psi>)
      else (if odd (length (filter (\<lambda>(pn, ch). pn \<noteq> 1 \<and> ch = choice) rs))
            then hadamard_second \<psi> else \<psi>))"
proof (induction rs rule: rev_induct)
  case Nil
  show ?case by simp
next
  case (snoc r rs)
  obtain pn ch where r: "r = (pn, ch)" by (cases r)
  have other: "i \<notin> set (card_qubits ch)" if "ch \<noteq> choice"
    using that assms(2) by (cases ch; cases choice) (auto simp: card_qubits_def)
  show ?case
    unfolding r using snoc.IH other assms(2)
    by (simp add: re_shuffle_on_pair[OF assms(1)] hadamard_first_twice hadamard_second_twice
        hadamard_commute)
qed



subsection \<open>The distribution of a card\<close>


lemma entangled_with_card:
  "i \<in> set (card_qubits choice) \<Longrightarrow>
     i < 6 \<and> entangled_with i < 6 \<and> entangled_with i \<in> set (card_qubits choice)"
  by (cases choice) (auto simp: card_qubits_def entangled_with_def)


lemma session_pair_state:
  fixes ang :: "nat \<Rightarrow> real"
  assumes "i \<in> set (card_qubits choice)"
  defines "d \<equiv> (\<lambda>a b. if a = b
        then (if a then sin (ang ((i + 3) mod 6) / 2) + cos (ang ((i + 3) mod 6) / 2)
              else cos (ang ((i + 3) mod 6) / 2) - sin (ang ((i + 3) mod 6) / 2)) / sqrt 2
        else 0)"
  shows "pair_state (player1_q, i) (player2_q, entangled_with i)
       (prepare_quantum_circuit ang @ concat (map (\<lambda>(pn, ch). re_shuffle pn ch) rs)) =
     (if odd (length (filter (\<lambda>(pn, ch). pn = 1 \<and> ch = choice) rs))
      then (if odd (length (filter (\<lambda>(pn, ch). pn \<noteq> 1 \<and> ch = choice) rs))
            then hadamard_first (hadamard_second d) else hadamard_first d)
      else (if odd (length (filter (\<lambda>(pn, ch). pn \<noteq> 1 \<and> ch = choice) rs))
            then hadamard_second d else d))"
proof -
  have i: "i < 6" using entangled_with_card[OF assms(1)] by simp
  show ?thesis
    unfolding pair_state_append prepared_pair_state[OF i] re_shuffles_on_pair[OF i assms(1)] d_def
    by (rule refl)
qed





subsection \<open>Memory strings\<close>

lemma measured_qubit_append:
  "measured_qubit c (gs @ hs) =
     (case measured_qubit c hs of Some q \<Rightarrow> Some q | None \<Rightarrow> measured_qubit c gs)"
  by (induction gs) (auto split: option.splits)

lemma measured_qubit_none:
  "(\<And>q c'. Measure_gate q c' \<notin> set gs) \<Longrightarrow> measured_qubit c gs = None"
  by (induction gs) (auto split: gate.splits option.splits)

lemma session_circuit_unmeasured:
  "Measure_gate q c \<notin> set (prepare_quantum_circuit ang @ concat (map (\<lambda>(pn, ch). re_shuffle pn ch) rs))"
  by (auto simp: prepare_quantum_circuit_gates re_shuffle_def)

lemma cslice_simps:
  "cslice r 3 6 = [(r, 3), (r, 4), (r, 5)]"
  "cslice r 0 6 = [(r, 0), (r, 1), (r, 2), (r, 3), (r, 4), (r, 5)]"
  by (simp_all add: cslice_def upt_conv_Cons)

lemma rev_upt_6: "rev [0..<6] = [5, 4, 3, 2, 1, 0]"
  by (simp add: upt_conv_Cons)

lemma register_strings_level_3:
  assumes um: "\<And>q c. Measure_gate q c \<notin> set gates"
  defines "measured \<equiv> gates
      @ measure_all (qslice dealer_q 0 num_qubits) (cslice dealer_c 0 num_qubits)
      @ measure_all (qslice player1_q 0 num_qubits) (cslice player1_c 0 num_qubits)
      @ measure_all (qslice player2_q 0 num_qubits) (cslice player2_c 0 num_qubits)"
  shows "register_string measured x player1_c =
      [x (player1_q, 5), x (player1_q, 4), x (player1_q, 3),
       x (player1_q, 2), x (player1_q, 1), x (player1_q, 0)]"
    and "register_string measured x player2_c =
      [x (player2_q, 5), x (player2_q, 4), x (player2_q, 3),
       x (player2_q, 2), x (player2_q, 1), x (player2_q, 0)]"
    and "register_string measured x dealer_c =
      [x (dealer_q, 5), x (dealer_q, 4), x (dealer_q, 3),
       x (dealer_q, 2), x (dealer_q, 1), x (dealer_q, 0)]"
  unfolding measured_def
  by (simp_all add: register_string_def measured_qubit_append measured_qubit_none[OF um]
      measure_all_def qslice_simps cslice_simps num_qubits_def NUM_QUANTUM_CARDS_PER_PLAYER_def
      rev_upt_6)

lemma register_strings_level_2:
  assumes um: "\<And>q c. Measure_gate q c \<notin> set gates"
  defines "measured \<equiv> gates
      @ measure_all (qslice dealer_q 3 6) (cslice dealer_c 3 6)
      @ measure_all (qslice player1_q 3 6) (cslice player1_c 3 6)
      @ measure_all (qslice player2_q 3 6) (cslice player2_c 3 6)"
  shows "register_string measured x player1_c =
      [x (player1_q, 5), x (player1_q, 4), x (player1_q, 3), False, False, False]"
    and "register_string measured x player2_c =
      [x (player2_q, 5), x (player2_q, 4), x (player2_q, 3), False, False, False]"
    and "register_string measured x dealer_c =
      [x (dealer_q, 5), x (dealer_q, 4), x (dealer_q, 3), False, False, False]"
  unfolding measured_def
  by (simp_all add: register_string_def measured_qubit_append measured_qubit_none[OF um]
      measure_all_def qslice_simps cslice_simps num_qubits_def NUM_QUANTUM_CARDS_PER_PLAYER_def
      rev_upt_6)

lemma bit_reversed_card_bits:
  "bit_reversed_card (4 * of_bool c + 2 * of_bool b + of_bool a + 1)
     = 4 * of_bool a + 2 * of_bool b + of_bool c + 1"
  by (cases a; cases b; cases c) (simp_all add: bit_reversed_card_def)

lemma quantum_card_first: "quantum_card (a # b # c # rest) 0 3 = Inr (slot_value [a, b, c])"
  using quantum_card_slot_value[of 0 "a # b # c # rest"] by simp

lemma quantum_card_second: "quantum_card [a', b', c', a, b, c] 3 6 = Inr (slot_value [a, b, c])"
  using quantum_card_slot_value[of 3 "[a', b', c', a, b, c]"] by simp

lemma joint_prob_support:
  assumes "even (length (filter (\<lambda>(pn, ch). pn = 1 \<and> ch = choice) rs))"
    and "even (length (filter (\<lambda>(pn, ch). pn \<noteq> 1 \<and> ch = choice) rs))"
    and "joint_prob (prepare_quantum_circuit ang @ concat (map (\<lambda>(pn, ch). re_shuffle pn ch) rs))
           choice x \<noteq> 0"
    and "i \<in> set (card_qubits choice)"
  shows "x (player2_q, entangled_with i) = x (player1_q, i)"
proof (rule ccontr)
  assume ne: "x (player2_q, entangled_with i) \<noteq> x (player1_q, i)"
  have "pair_state (player1_q, i) (player2_q, entangled_with i)
      (prepare_quantum_circuit ang @ concat (map (\<lambda>(pn, ch). re_shuffle pn ch) rs))
      (x (player1_q, i)) (x (player2_q, entangled_with i)) = 0"
    unfolding session_pair_state[OF assms(4)] using assms(1,2) ne by auto
  then have "(\<lambda>i. (pair_state (player1_q, i) (player2_q, entangled_with i)
      (prepare_quantum_circuit ang @ concat (map (\<lambda>(pn, ch). re_shuffle pn ch) rs))
      (x (player1_q, i)) (x (player2_q, entangled_with i)))\<^sup>2) i = 0"
    by simp
  then have "joint_prob (prepare_quantum_circuit ang @ concat (map (\<lambda>(pn, ch). re_shuffle pn ch) rs))
           choice x = 0"
    unfolding joint_prob_def using assms(4) by (subst prod_list_zero_iff) force
  with assms(3) show False by contradiction
qed

subsection \<open>Entangled cards\<close>

lemma add_measurements_qc:
  assumes "qc g = Some gates" and "add_measurements_to_circuit g = Inr g2"
  shows "qc g2 = Some (gates @
      (if measure_level g = 2
       then measure_all (qslice dealer_q 3 6) (cslice dealer_c 3 6)
          @ measure_all (qslice player1_q 3 6) (cslice player1_c 3 6)
          @ measure_all (qslice player2_q 3 6) (cslice player2_c 3 6)
       else measure_all (qslice dealer_q 0 num_qubits) (cslice dealer_c 0 num_qubits)
          @ measure_all (qslice player1_q 0 num_qubits) (cslice player1_c 0 num_qubits)
          @ measure_all (qslice player2_q 0 num_qubits) (cslice player2_c 0 num_qubits)))"
  using assms by (auto simp: add_measurements_to_circuit_def split: if_splits)

text \<open>
  Claim C2, as amended. Take a circuit as a session builds it, the prepared circuit
  followed by the re-shuffles \<open>rs\<close> (each the player's number and the card), in which each
  player has re-shuffled the card \<open>choice\<close> an even number of times, in particular never.
  Then for every outcome \<open>x\<close> that the circuit returns with a probability above 0, the card
  that \<^verbatim>\<open>_process_quantum_results\<close> reads for Player 2 from the memory string is the bit
  reversal of the card it reads for Player 1. (At measure level 2 only the first card is
  measured.)
\<close>

theorem entangled_cards_bit_reversed:
  assumes "qc g = Some (prepare_quantum_circuit ang @ concat (map (\<lambda>(pn, ch). re_shuffle pn ch) rs))"
    and "even (length (filter (\<lambda>(pn, ch). pn = 1 \<and> ch = choice) rs))"
    and "even (length (filter (\<lambda>(pn, ch). pn \<noteq> 1 \<and> ch = choice) rs))"
    and "choice = Choice1 \<or> measure_level g \<noteq> 2"
    and "add_measurements_to_circuit g = Inr g2" and "qc g2 = Some measured"
    and "0 < joint_prob (prepare_quantum_circuit ang @ concat (map (\<lambda>(pn, ch). re_shuffle pn ch) rs))
           choice x"
  shows "\<exists>v. quantum_card (p1_res (memory_of measured x))
             (if choice = Choice1 then 0 else 3) (if choice = Choice1 then 3 else 6) = Inr v
     \<and> quantum_card (p2_res (memory_of measured x))
             (if choice = Choice1 then 0 else 3) (if choice = Choice1 then 3 else 6)
         = Inr (bit_reversed_card v)
     \<and> 1 \<le> v \<and> v \<le> 8"
proof -
  let ?gates = "prepare_quantum_circuit ang @ concat (map (\<lambda>(pn, ch). re_shuffle pn ch) rs)"
  have um: "\<And>q c. Measure_gate q c \<notin> set ?gates" by (rule session_circuit_unmeasured)
  have nz: "joint_prob ?gates choice x \<noteq> 0" using assms(7) by simp
  note eq = joint_prob_support[OF assms(2,3) nz]
  have m: "measured = ?gates @
      (if measure_level g = 2
       then measure_all (qslice dealer_q 3 6) (cslice dealer_c 3 6)
          @ measure_all (qslice player1_q 3 6) (cslice player1_c 3 6)
          @ measure_all (qslice player2_q 3 6) (cslice player2_c 3 6)
       else measure_all (qslice dealer_q 0 num_qubits) (cslice dealer_c 0 num_qubits)
          @ measure_all (qslice player1_q 0 num_qubits) (cslice player1_c 0 num_qubits)
          @ measure_all (qslice player2_q 0 num_qubits) (cslice player2_c 0 num_qubits))"
    using add_measurements_qc[OF assms(1,5)] assms(6) by simp
  show ?thesis
  proof (cases choice)
    case Choice1
    have e: "x (player2_q, 5) = x (player1_q, 3)" "x (player2_q, 4) = x (player1_q, 4)"
      "x (player2_q, 3) = x (player1_q, 5)"
      using eq[of 3] eq[of 4] eq[of 5] Choice1 by (simp_all add: card_qubits_def entangled_with_def)
    have "\<exists>r1 r2. p1_res (memory_of measured x) = x (player1_q, 5) # x (player1_q, 4) # x (player1_q, 3) # r1
        \<and> p2_res (memory_of measured x) = x (player2_q, 5) # x (player2_q, 4) # x (player2_q, 3) # r2"
      unfolding m memory_of_def
      using register_strings_level_2[OF um, of x] register_strings_level_3[OF um, of x]
      by (cases "measure_level g = 2") simp_all
    then obtain r1 r2 where
      r: "p1_res (memory_of measured x) = x (player1_q, 5) # x (player1_q, 4) # x (player1_q, 3) # r1"
        "p2_res (memory_of measured x) = x (player2_q, 5) # x (player2_q, 4) # x (player2_q, 3) # r2"
      by blast
    have b: "1 \<le> slot_value [x (player1_q, 5), x (player1_q, 4), x (player1_q, 3)]
        \<and> slot_value [x (player1_q, 5), x (player1_q, 4), x (player1_q, 3)] \<le> 8"
      by (simp add: slot_value_three)
    show ?thesis
      unfolding r using Choice1 b e
      by (simp add: quantum_card_first slot_value_three bit_reversed_card_bits)
  next
    case Choice2
    then have l3: "measure_level g \<noteq> 2" using assms(4) by simp
    have e: "x (player2_q, 2) = x (player1_q, 0)" "x (player2_q, 1) = x (player1_q, 1)"
      "x (player2_q, 0) = x (player1_q, 2)"
      using eq[of 0] eq[of 1] eq[of 2] Choice2 by (simp_all add: card_qubits_def entangled_with_def)
    have r: "p1_res (memory_of measured x) =
        [x (player1_q, 5), x (player1_q, 4), x (player1_q, 3),
         x (player1_q, 2), x (player1_q, 1), x (player1_q, 0)]"
      "p2_res (memory_of measured x) =
        [x (player2_q, 5), x (player2_q, 4), x (player2_q, 3),
         x (player2_q, 2), x (player2_q, 1), x (player2_q, 0)]"
      unfolding m memory_of_def
      using register_strings_level_3[OF um, of x] l3 by simp_all
    have b: "1 \<le> slot_value [x (player1_q, 2), x (player1_q, 1), x (player1_q, 0)]
        \<and> slot_value [x (player1_q, 2), x (player1_q, 1), x (player1_q, 0)] \<le> 8"
      by (simp add: slot_value_three)
    show ?thesis
      unfolding r using Choice2 b e
      by (simp add: quantum_card_second slot_value_three bit_reversed_card_bits)
  qed
qed


lemma half_amplitude_sq: "(1 / sqrt 2)\<^sup>2 = (1 / 2 :: real)"
  by (simp add: power_divide)

lemma half_amplitude_6: "(1 / sqrt 2) ^ 6 = (1 / 8 :: real)"
proof -
  have "(1 / sqrt 2) ^ 6 = ((1 / sqrt 2)\<^sup>2) ^ 3" by (simp add: power_mult[symmetric])
  then show ?thesis unfolding half_amplitude_sq by (simp add: power_divide)
qed

lemma prepared_joint_prob_zero_angles:
  "joint_prob (prepare_quantum_circuit (\<lambda>k. 0)) Choice1 scenario_outcome = 1 / 8"
proof -
  have p: "pair_state (player1_q, i) (player2_q, entangled_with i) (prepare_quantum_circuit (\<lambda>k. 0))
      = (\<lambda>a b. if a = b then 1 / sqrt 2 else 0)" if "i < 6" for i
    unfolding prepared_pair_state[OF that] by (intro ext) simp
  show ?thesis
    by (simp add: joint_prob_def card_qubits_def p)
      (simp add: entangled_with_def scenario_outcome_def half_amplitude_6)
qed

lemma scenario_memory:
  "memory_of (prepare_quantum_circuit (\<lambda>k. 0)
      @ measure_all (qslice dealer_q 0 6) (cslice dealer_c 0 6)
      @ measure_all (qslice player1_q 0 6) (cslice player1_c 0 6)
      @ measure_all (qslice player2_q 0 6) (cslice player2_c 0 6)) scenario_outcome
   = mem scenario_env"
proof -
  have um: "\<And>q c. Measure_gate q c \<notin> set (prepare_quantum_circuit (\<lambda>k. 0))"
    using session_circuit_unmeasured[of _ _ "\<lambda>k. 0" "[]"] by simp
  show ?thesis
    using register_strings_level_3[OF um, of scenario_outcome]
    by (simp add: memory_of_def scenario_env_def scenario_outcome_def num_qubits_def
        NUM_QUANTUM_CARDS_PER_PLAYER_def)
qed

text \<open>
  The sample session in round 2, where nobody has re-shuffled: the outcome behind its
  registers has probability 1/8 on the first cards, Player 1 reads 4 and Player 2 its bit
  reversal 7.
\<close>

theorem entangled_cards_bit_reversed_witness:
  "qc scenario_round2 = Some (prepare_quantum_circuit (\<lambda>k. 0) @ concat (map (\<lambda>(pn, ch). re_shuffle pn ch) []))
   \<and> add_measurements_to_circuit scenario_round2
       = Inr (scenario_round2\<lparr>qc := qc scenario_ended3\<rparr>)
   \<and> joint_prob (prepare_quantum_circuit (\<lambda>k. 0) @ concat (map (\<lambda>(pn, ch). re_shuffle pn ch) []))
        Choice1 scenario_outcome = 1 / 8
   \<and> memory_of (the (qc scenario_ended3)) scenario_outcome = mem scenario_env
   \<and> quantum_card (p1_res (mem scenario_env)) 0 3 = Inr 4
   \<and> quantum_card (p2_res (mem scenario_env)) 0 3 = Inr 7
   \<and> bit_reversed_card 4 = 7"
proof -
  let ?x = scenario_outcome
  let ?gates = "prepare_quantum_circuit (\<lambda>k. 0) @ concat (map (\<lambda>(pn, ch). re_shuffle pn ch) [])"
  have a1: "qc scenario_round2 = Some ?gates"
    by (simp add: scenario_round2_def scenario_started_def)
  have a2: "even (length (filter (\<lambda>(pn :: nat, ch). pn = 1 \<and> ch = Choice1) []))"
    and a3: "even (length (filter (\<lambda>(pn :: nat, ch). pn \<noteq> 1 \<and> ch = Choice1) []))"
    and a4: "Choice1 = Choice1 \<or> measure_level scenario_round2 \<noteq> 2"
    by simp_all
  have a5: "add_measurements_to_circuit scenario_round2 = Inr (scenario_round2\<lparr>qc := qc scenario_ended3\<rparr>)"
    by (simp add: add_measurements_to_circuit_def scenario_round2_def scenario_started_def
        scenario_ended3_def num_qubits_def NUM_QUANTUM_CARDS_PER_PLAYER_def)
  have a6: "qc (scenario_round2\<lparr>qc := qc scenario_ended3\<rparr>) = Some (the (qc scenario_ended3))"
    by (simp add: scenario_ended3_def)
  have j: "joint_prob ?gates Choice1 ?x = 1 / 8"
    using prepared_joint_prob_zero_angles by simp
  then have a7: "0 < joint_prob ?gates Choice1 ?x" by simp
  have mm: "memory_of (the (qc scenario_ended3)) ?x = mem scenario_env"
    using scenario_memory by (simp add: scenario_ended3_def)
  from entangled_cards_bit_reversed[OF a1 a2 a3 a4 a5 a6 a7]
  obtain v where v: "quantum_card (p1_res (memory_of (the (qc scenario_ended3)) ?x)) 0 3 = Inr v"
    "quantum_card (p2_res (memory_of (the (qc scenario_ended3)) ?x)) 0 3 = Inr (bit_reversed_card v)"
    by auto
  have p1: "quantum_card (p1_res (mem scenario_env)) 0 3 = Inr 4"
    by (simp add: scenario_env_def quantum_card_first slot_value_three)
  then have "v = 4" using v(1) unfolding mm by simp
  then have "quantum_card (p2_res (mem scenario_env)) 0 3 = Inr (bit_reversed_card 4)"
    using v(2) unfolding mm by simp
  moreover have "bit_reversed_card 4 = 7" by (simp add: bit_reversed_card_def)
  ultimately show ?thesis using a1 a5 j mm p1 by simp
qed

subsection \<open>The circuit of a session\<close>

text \<open>
  In the circuit of a session every entangled pair is closed, so that \<open>pair_state\<close> is the
  state of the pair.
\<close>

lemma session_pairs_closed:
  assumes "i < 6"
  shows "pair_closed (player1_q, i) (player2_q, entangled_with i)
     (prepare_quantum_circuit ang @ concat (map (\<lambda>(pn, ch). re_shuffle pn ch) rs))"
proof -
  have "list_all (gate_closed (player1_q, i) (player2_q, entangled_with i))
      (concat (map (\<lambda>(pn, ch). re_shuffle pn ch) rs))"
    by (induction rs) (auto simp: re_shuffle_def list_all_iff)
  moreover have "list_all (gate_closed (player1_q, i) (player2_q, entangled_with i))
      (prepare_quantum_circuit ang)"
    using assms by (auto simp: prepare_quantum_circuit_gates entangled_with_def)
  ultimately show ?thesis by (simp add: pair_closed_def)
qed

lemma click_reshuffle_qc:
  assumes "on_action_button_clicked e (ReShuffle choice) g = Inr g'" and "\<not> game_over g'"
    and "qc g = Some c"
  shows "qc g' = Some (c @ re_shuffle (player_turn_order g ! current_player_index g) choice)"
  using assms(1)
proof (cases rule: click_cases)
  case (reshuffle choice' c')
  then have c: "choice' = choice" "c' = c" using assms(3) by simp_all
  from next_turn_cases[OF reshuffle(4)] assms(2) show ?thesis
    unfolding c by (auto simp: re_shuffle_def dest: end_game_fields(1))
qed simp_all

text \<open>
  While a game is running, the circuit of the session is the prepared circuit followed by
  the re-shuffles made so far.
\<close>

lemma session_circuit:
  "reachable g \<Longrightarrow>
     game_over g \<or> player_turn_order g = []
     \<or> (\<exists>ang rs. qc g = Some (prepare_quantum_circuit ang
            @ concat (map (\<lambda>(pn, ch). re_shuffle pn ch) rs)))"
proof (induction rule: reachable.induct)
  case init
  show ?case by (simp add: init_game_def)
next
  case (start g e g')
  from start_game_Inr[OF start.hyps(2)] obtain ab where
    "g' = g\<lparr>game_over := False, current_round := 1, current_player_index := 0,
      player_hands := [],
      initial_cards := AList.update ''Player 2'' (generate_random_card (rng e 2))
                   (AList.update ''Player 1'' (generate_random_card (rng e 1))
                     (AList.update ''Dealer'' (generate_random_card (rng e 0))
                       (initial_cards g))),
      qc := Some (prepare_quantum_circuit (angles e)),
      player_turn_order := determine_turn_order (coin e),
      action_box := ab\<rparr>" by blast
  then have "qc g' = Some (prepare_quantum_circuit (angles e)
      @ concat (map (\<lambda>(pn, ch). re_shuffle pn ch) []))" by simp
  then show ?case by blast
next
  case (click g e b g')
  show ?case
  proof (cases "game_over g'")
    case True
    then show ?thesis by simp
  next
    case False
    then have ng: "\<not> game_over g" using click_game_over_mono[OF click.hyps(2)] by blast
    have idx: "current_player_index g < length (player_turn_order g)"
      using click.hyps(2) by (rule click_cases)
    then have "player_turn_order g \<noteq> []" by auto
    with click.IH ng obtain ang rs where
      q: "qc g = Some (prepare_quantum_circuit ang @ concat (map (\<lambda>(pn, ch). re_shuffle pn ch) rs))"
      by blast
    have same: "qc g' = qc g" if "next_turn e g = Inr g'"
      using next_turn_cases[OF that] False by (auto dest: end_game_fields(1))
    from click.hyps(2) show ?thesis
    proof (cases rule: click_cases)
      case measure
      then show ?thesis using False by (auto dest: end_game_fields(1))
    next
      case pass
      then show ?thesis using same q by auto
    next
      case (reshuffle choice c)
      have "qc g' = Some ((prepare_quantum_circuit ang @ concat (map (\<lambda>(pn, ch). re_shuffle pn ch) rs))
          @ re_shuffle (player_turn_order g ! current_player_index g) choice)"
        using click_reshuffle_qc[OF _ False q] click.hyps(2) reshuffle(1) by simp
      then have "qc g' = Some (prepare_quantum_circuit ang
          @ concat (map (\<lambda>(pn, ch). re_shuffle pn ch)
              (rs @ [(player_turn_order g ! current_player_index g, choice)])))"
        by simp
      then show ?thesis by blast
    qed
  qed
qed





subsection \<open>Re-shuffling a card\<close>




lemma reshuffled_pair_state:
  assumes "i \<in> {3, 4, 5}"
  shows "pair_state (player1_q, i) (player2_q, entangled_with i)
      (prepare_quantum_circuit (\<lambda>k. 0) @ re_shuffle 1 Choice1) False True = 1 / 2"
proof -
  have c: "i \<in> set (card_qubits Choice1)" using assms by (simp add: card_qubits_def)
  have "pair_state (player1_q, i) (player2_q, entangled_with i)
      (prepare_quantum_circuit (\<lambda>k. 0) @ concat (map (\<lambda>(pn, ch). re_shuffle pn ch) [(1, Choice1)]))
      False True = 1 / 2"
    unfolding session_pair_state[OF c] by (simp add: hadamard_first_def)
  then show ?thesis by simp
qed

lemma uncorrelated_memory:
  "mem uncorrelated_env =
     \<lparr>p2_res = [True, True, True, False, False, False],
      p1_res = [False, False, False, False, False, False],
      dealer_res = [False, False, False, False, False, False]\<rparr>"
proof -
  have um: "\<And>q c. Measure_gate q c \<notin> set (prepare_quantum_circuit (\<lambda>k. 0) @ re_shuffle 1 Choice1)"
    using session_circuit_unmeasured[of _ _ "\<lambda>k. 0" "[(1, Choice1)]"] by simp
  show ?thesis
    using register_strings_level_2[OF um, of uncorrelated_outcome]
    by (simp add: uncorrelated_env_def memory_of_def uncorrelated_outcome_def)
qed

text \<open>
  Claim C2 as stated fails after a re-shuffle. In the sample session Player 1 re-shuffles
  card 1 and Player 2 measures. The outcome in which Player 1's three qubits read 0 and
  Player 2's read 1 then has probability 1/64; with it Player 1's quantum card is 1, whose
  bit reversal is 1, and Player 2's is 8.
\<close>

theorem re_shuffle_breaks_bit_reversal:
  "on_action_button_clicked scenario_env (ReShuffle Choice1) scenario_started
     = Inr scenario_reshuffled
   \<and> qc scenario_reshuffled = Some (prepare_quantum_circuit (\<lambda>k. 0) @ re_shuffle 1 Choice1)
   \<and> joint_prob (prepare_quantum_circuit (\<lambda>k. 0) @ re_shuffle 1 Choice1) Choice1
        uncorrelated_outcome = 1 / 64
   \<and> (\<exists>g'. on_action_button_clicked uncorrelated_env Measure scenario_reshuffled = Inr g'
        \<and> map_of (player_hands g') ''Player 1'' = Some [5, 1]
        \<and> map_of (player_hands g') ''Player 2'' = Some [7, 8])
   \<and> bit_reversed_card 1 = 1"
proof -
  have a: "on_action_button_clicked scenario_env (ReShuffle Choice1) scenario_started
     = Inr scenario_reshuffled"
    by (simp add: on_action_button_clicked_def next_turn_def scenario_env_def
      scenario_started_def scenario_reshuffled_def update_turn_highlight_def re_shuffle_def)
  have b: "qc scenario_reshuffled = Some (prepare_quantum_circuit (\<lambda>k. 0) @ re_shuffle 1 Choice1)"
    by (simp add: scenario_reshuffled_def)
  have c: "joint_prob (prepare_quantum_circuit (\<lambda>k. 0) @ re_shuffle 1 Choice1) Choice1
        uncorrelated_outcome = 1 / 64"
    by (simp add: joint_prob_def card_qubits_def uncorrelated_outcome_def reshuffled_pair_state
        power_divide del: One_nat_def)
  have d: "\<exists>g'. on_action_button_clicked uncorrelated_env Measure scenario_reshuffled = Inr g'
        \<and> map_of (player_hands g') ''Player 1'' = Some [5, 1]
        \<and> map_of (player_hands g') ''Player 2'' = Some [7, 8]"
    unfolding on_action_button_clicked_def end_game_def uncorrelated_memory
    by (simp add: scenario_eval scenario_reshuffled_def scenario_started_def uncorrelated_env_def
        dealer_final_turn_loop.simps)
  have e: "bit_reversed_card 1 = 1" by (simp add: bit_reversed_card_def)
  from a b c d e show ?thesis by (intro conjI)
qed

end
